theory Spec2Isabelle
  imports Main "HOL-Library.AList" "HOL-Library.Sublist"
begin

section \<open>Exceptions and results\<close>

text \<open>
  The Python exceptions (all subclasses of \<open>Exception\<close>) that the journal and the
  dispatcher raise, catch or let through. \<open>BackendError\<close> stands for any exception of a
  caption backend other than \<open>CorruptImageError\<close>; its argument is the message.
  A call that may raise returns \<open>exn + 'a\<close>, with \<open>Inl\<close> for the exception, next to
  the state as it is when the call ends.
\<close>

datatype exn =
    ValidationError
  | PydanticSerializationError
  | JSONDecodeError
  | UnicodeDecodeError
  | CorruptImageError
  | ValueError
  | ImportError
  | BackendError string

type_synonym 'a res = "exn + 'a"

section \<open>Strings\<close>

text \<open>
  A Python \<open>str\<close> is modelled by the bytes of its UTF-8 encoding, and a lone surrogate
  in it by the byte that \<open>os.fsdecode\<close> made it from (the \<open>surrogateescape\<close> handler of
  file names): so a \<open>str\<close> is valid Unicode, and pydantic can serialize it, exactly when
  its bytes are well-formed UTF-8. \<open>utf8\<close> is that check, by the table of RFC 3629.
\<close>

definition cont :: "char \<Rightarrow> bool" where
  "cont c = (128 \<le> (of_char c :: nat) \<and> (of_char c :: nat) \<le> 191)"

fun utf8 :: "string \<Rightarrow> bool" where
  "utf8 [] = True"
| "utf8 (a # cs) =
     (let x = (of_char a :: nat) in
      if x < 128 then utf8 cs
      else if 194 \<le> x \<and> x \<le> 223 then
        (case cs of b # cs1 \<Rightarrow> cont b \<and> utf8 cs1 | _ \<Rightarrow> False)
      else if 224 \<le> x \<and> x \<le> 239 then
        (case cs of
           b # c # cs2 \<Rightarrow>
             cont b \<and> (if x = 224 then 160 \<le> (of_char b :: nat) else True) \<and>
             (if x = 237 then (of_char b :: nat) \<le> 159 else True) \<and> cont c \<and> utf8 cs2
         | _ \<Rightarrow> False)
      else if 240 \<le> x \<and> x \<le> 244 then
        (case cs of
           b # c # d # cs3 \<Rightarrow>
             cont b \<and> (if x = 240 then 144 \<le> (of_char b :: nat) else True) \<and>
             (if x = 244 then (of_char b :: nat) \<le> 143 else True) \<and>
             cont c \<and> cont d \<and> utf8 cs3
         | _ \<Rightarrow> False)
      else False)"

section \<open>The journal file\<close>

text \<open>
  A parsed JSON value. Objects keep their members in the order of the text.
\<close>

datatype json =
    JNull
  | JBool bool
  | JNumber int
  | JString string
  | JArray "json list"
  | JObject "(string \<times> json) list"

text \<open>
  One line of \<open>captions.jsonl\<close>, as \<open>CaptionJournal.load\<close> meets it: the text-mode
  iterator of \<open>open(path, encoding="utf-8")\<close> decodes the bytes of the line,
  \<open>line.strip()\<close> removes the surrounding white space, and pydantic's
  \<open>model_validate_json\<close> parses what is left.
  \<^item> \<open>Undecodable\<close>: the bytes are not valid UTF-8 (the iterator raises
    \<open>UnicodeDecodeError\<close>);
  \<^item> \<open>Blank\<close>: nothing is left after \<open>strip()\<close>;
  \<^item> \<open>NotJson\<close>: text that is not a JSON document (a truncated record is one);
  \<^item> \<open>Json j\<close>: the JSON text of the value \<open>j\<close>.
\<close>

datatype line = Undecodable | Blank | NotJson | Json json

text \<open>
  The contents of the file: the lines that end with a newline, and what stands after
  the last newline when the file does not end with one (the last line of a file that
  a crash cut, read as a line like the others). \<open>None\<close> is a path that does not
  exist.
\<close>

record content =
  ended :: "line list"
  tail :: "line option"

type_synonym jfile = "content option"

text \<open>The lines the iterator \<open>for line in f\<close> yields.\<close>

definition file_lines :: "jfile \<Rightarrow> line list" where
  "file_lines f =
     (case f of
        None \<Rightarrow> []
      | Some c \<Rightarrow> ended c @ (case tail c of None \<Rightarrow> [] | Some l \<Rightarrow> [l]))"

text \<open>
  What a line reads as when the text of a record is appended right after an
  unterminated last line \<open>t\<close>: white space before the record is stripped; bytes that
  do not decode still do not; and any other text followed by the object of a record
  is not a JSON document (what \<open>t\<close> left open stays open, and a complete value cannot
  be followed by a second one).
\<close>

fun glue :: "line \<Rightarrow> line \<Rightarrow> line" where
  "glue Blank l = l"
| "glue Undecodable l = Undecodable"
| "glue NotJson l = NotJson"
| "glue (Json j) l = NotJson"

text \<open>
  Appending \<open>line + "\n"\<close> in mode \<open>"a"\<close>: the text goes right after the last byte of
  the file, whether or not that is a newline.
\<close>

definition append_line :: "line \<Rightarrow> content \<Rightarrow> content" where
  "append_line ln c =
     (case tail c of
        None \<Rightarrow> \<lparr>ended = ended c @ [ln], tail = None\<rparr>
      | Some t \<Rightarrow> \<lparr>ended = ended c @ [glue t ln], tail = None\<rparr>)"

text \<open>What opening a path in mode \<open>"a"\<close> finds or creates.\<close>

definition opened :: "jfile \<Rightarrow> content" where
  "opened f = (case f of None \<Rightarrow> \<lparr>ended = [], tail = None\<rparr> | Some c \<Rightarrow> c)"

section \<open>CaptionRecord\<close>

text \<open>
  \<^verbatim>\<open>
  class CaptionRecord(BaseModel):
      rel_path: str
      caption: str | None
      status: Literal["success", "error_corrupt", "error_api", "error_model"]
  \<close>
\<close>

record CaptionRecord =
  rel_path :: string
  caption :: "string option"
  status :: string

definition STATUSES :: "string list" where
  "STATUSES = [''success'', ''error_corrupt'', ''error_api'', ''error_model'']"

text \<open>
  The constructor \<open>CaptionRecord(rel_path=..., caption=..., status=...)\<close> called by
  \<open>write\<close> with a \<open>str\<close>, a \<open>str | None\<close> and a \<open>str\<close>: the literal type of
  \<open>status\<close> is what validation can refuse.
\<close>

definition CaptionRecord_init :: "string \<Rightarrow> string option \<Rightarrow> string \<Rightarrow> CaptionRecord res" where
  "CaptionRecord_init rp c st =
     (if st \<in> set STATUSES
      then Inr \<lparr>rel_path = rp, caption = c, status = st\<rparr>
      else Inl ValidationError)"

text \<open>
  Member lookup in a JSON object; of a repeated name the last member counts, as in
  Python's \<open>json\<close>.
\<close>

definition obj_get :: "(string \<times> json) list \<Rightarrow> string \<Rightarrow> json option" where
  "obj_get fs k = map_of (rev fs) k"

text \<open>
  Validation of a parsed JSON value against the model (pydantic v2 defaults: the
  three fields are required, \<open>caption\<close> may be \<open>null\<close>, a \<open>str\<close> field takes a JSON
  string only, members the model does not declare are ignored).
\<close>

definition model_validate :: "json \<Rightarrow> CaptionRecord res" where
  "model_validate j =
     (case j of
        JObject fs \<Rightarrow>
          (case obj_get fs ''rel_path'' of
             Some (JString rp) \<Rightarrow>
               (case obj_get fs ''caption'' of
                  Some JNull \<Rightarrow>
                    (case obj_get fs ''status'' of
                       Some (JString st) \<Rightarrow> CaptionRecord_init rp None st
                     | _ \<Rightarrow> Inl ValidationError)
                | Some (JString c) \<Rightarrow>
                    (case obj_get fs ''status'' of
                       Some (JString st) \<Rightarrow> CaptionRecord_init rp (Some c) st
                     | _ \<Rightarrow> Inl ValidationError)
                | _ \<Rightarrow> Inl ValidationError)
           | _ \<Rightarrow> Inl ValidationError)
      | _ \<Rightarrow> Inl ValidationError)"

text \<open>
  \<open>CaptionRecord.model_validate_json(line)\<close> on a stripped, non-empty line: text that is
  not JSON is a \<open>ValidationError\<close> as well.
\<close>

fun model_validate_json :: "line \<Rightarrow> CaptionRecord res" where
  "model_validate_json (Json j) = model_validate j"
| "model_validate_json l = Inl ValidationError"

text \<open>
  \<open>record.model_dump_json()\<close>: the line \<open>write\<close> appends. The serializer raises
  \<open>PydanticSerializationError\<close> for a string that is not valid Unicode.
\<close>

definition model_dump_json :: "CaptionRecord \<Rightarrow> line res" where
  "model_dump_json r =
     (if utf8 (rel_path r) \<and> (case caption r of None \<Rightarrow> True | Some c \<Rightarrow> utf8 c) \<and>
         utf8 (status r)
      then Inr (Json (JObject
             [(''rel_path'', JString (rel_path r)),
              (''caption'', (case caption r of None \<Rightarrow> JNull | Some c \<Rightarrow> JString c)),
              (''status'', JString (status r))]))
      else Inl PydanticSerializationError)"

section \<open>CaptionJournal\<close>

text \<open>
  The messages of the loggers, in the order they are emitted.
\<close>

datatype log_msg =
    WarnDiscarded nat
  | ErrorNoPhotosDir
  | InfoLocalSingleThreaded
  | InfoForce
  | InfoSummary nat nat nat
  | InfoScanning
  | InfoFound nat
  | InfoToProcess nat
  | InfoNothingToDo
  | WarnItem string string
  | InfoBatchDone nat nat
  | InfoDone nat

text \<open>
  The value stored under a key of \<open>_records\<close>: the dict
  \<open>{"caption": ..., "status": ...}\<close>, as a pair.
\<close>

type_synonym rec_dict = "string option \<times> string"

text \<open>
  The state a \<open>CaptionJournal\<close> works on: the file at \<open>self.path\<close>, the dict
  \<open>self._records\<close> (in insertion order), the set \<open>self._done\<close>, whether \<open>self._file\<close>
  holds an open handle, and the log. (\<open>done_set\<close> and, below, \<open>journal_write\<close> stand
  for \<open>_done\<close> and \<open>write\<close>, whose names Isabelle reserves.)
\<close>

record world =
  disk :: jfile
  records :: "(string \<times> rec_dict) list"
  done_set :: "string set"
  file_open :: bool
  logged :: "log_msg list"

definition CaptionJournal_init :: "jfile \<Rightarrow> log_msg list \<Rightarrow> world" where
  "CaptionJournal_init f lg =
     \<lparr>disk = f, records = [], done_set = {}, file_open = False, logged = lg\<rparr>"

definition log_add :: "log_msg \<Rightarrow> world \<Rightarrow> world" where
  "log_add m w = w\<lparr>logged := logged w @ [m]\<rparr>"

text \<open>
  The loop \<open>for line in f\<close> of \<open>load\<close>, over the lines left to read, with the dict and
  the counter \<open>discarded\<close>. The result says whether the loop raised.
\<close>

fun read_lines ::
  "line list \<Rightarrow> (string \<times> rec_dict) list \<Rightarrow> nat \<Rightarrow> exn option \<times> (string \<times> rec_dict) list \<times> nat"
where
  "read_lines [] recs discarded = (None, recs, discarded)"
| "read_lines (Undecodable # ls) recs discarded = (Some UnicodeDecodeError, recs, discarded)"
| "read_lines (Blank # ls) recs discarded = read_lines ls recs discarded"
| "read_lines (l # ls) recs discarded =
     (case model_validate_json l of
        Inl e \<Rightarrow>
          (if e = ValidationError \<or> e = JSONDecodeError
           then read_lines ls recs (discarded + 1)
           else (Some e, recs, discarded))
      | Inr r \<Rightarrow>
          read_lines ls (AList.update (rel_path r) (caption r, status r) recs) discarded)"

text \<open>The loop that fills \<open>_done\<close> from \<open>_records.items()\<close>.\<close>

definition fill_done :: "string set \<Rightarrow> (string \<times> rec_dict) list \<Rightarrow> string set \<Rightarrow> string set" where
  "fill_done retry_statuses recs d =
     fold (\<lambda>(rp, r) acc. if snd r \<notin> retry_statuses then insert rp acc else acc) recs d"

definition load :: "string set \<Rightarrow> world \<Rightarrow> (string \<times> rec_dict) list res \<times> world" where
  "load retry_statuses w =
     (let w0 = w\<lparr>records := [], done_set := {}\<rparr>;
          (err, recs, discarded) =
            (case disk w0 of
               None \<Rightarrow> (None, [], 0)
             | Some c \<Rightarrow> read_lines (file_lines (Some c)) [] 0);
          w1 = w0\<lparr>records := recs\<rparr>
      in case err of
           Some e \<Rightarrow> (Inl e, w1)
         | None \<Rightarrow>
             (let w2 = (if discarded \<noteq> 0 then log_add (WarnDiscarded discarded) w1 else w1);
                  w3 = w2\<lparr>done_set := fill_done retry_statuses (records w2) (done_set w2)\<rparr>
              in (Inr (records w3), w3)))"

definition is_done :: "string \<Rightarrow> world \<Rightarrow> bool" where
  "is_done rp w = (rp \<in> done_set w)"

text \<open>
  \<open>CaptionJournal.write\<close>: the record is validated and serialized first; then, under
  the lock, the file is opened for appending when no handle is held (which creates
  it), the line is appended and the key joins \<open>_done\<close>.
\<close>

definition journal_write :: "string \<Rightarrow> string option \<Rightarrow> string \<Rightarrow> world \<Rightarrow> unit res \<times> world" where
  "journal_write rp c st w =
     (case CaptionRecord_init rp c st of
        Inl e \<Rightarrow> (Inl e, w)
      | Inr r \<Rightarrow>
          (case model_dump_json r of
             Inl e \<Rightarrow> (Inl e, w)
           | Inr ln \<Rightarrow>
               (let w1 = (if \<not> file_open w
                          then w\<lparr>file_open := True, disk := Some (opened (disk w))\<rparr>
                          else w);
                    w2 = w1\<lparr>disk := Some (append_line ln (opened (disk w1)))\<rparr>
                in (Inr (), w2\<lparr>done_set := insert rp (done_set w2)\<rparr>))))"

text \<open>\<open>summary\<close>: the three counts of the message (total, success, errors).\<close>

definition summary :: "world \<Rightarrow> log_msg" where
  "summary w =
     (let total = length (records w);
          success = length (filter (\<lambda>(rp, r). snd r = ''success'') (records w))
      in InfoSummary total success (total - success))"

definition close :: "world \<Rightarrow> world" where
  "close w = w\<lparr>file_open := False\<rparr>"

section \<open>The dispatcher\<close>

text \<open>
  What \<open>run\<close> takes from outside the journal: whether \<open>photos_dir\<close> is a directory,
  the list \<open>_collect_photos(photos_dir)\<close> of pairs \<open>(rel_path, full_path)\<close>,
  \<open>load_image\<close>, the loaded backend's \<open>caption\<close>, and the order in which the thread
  pool completes the items of a batch it was given. For the constructor of a backend:
  whether the packages it imports are installed, the API key the settings hold for it
  (empty when unset), and what the rest of the constructor does (the client or the
  model it builds).
\<close>

type_synonym item = "string \<times> string"

record 'img env =
  photos_is_dir :: bool
  all_photos :: "item list"
  load_image :: "string \<Rightarrow> 'img res"
  be_caption :: "'img \<Rightarrow> string res"
  completion_order :: "item list \<Rightarrow> item list"
  installed :: "string \<Rightarrow> bool"
  api_key :: "string \<Rightarrow> string"
  construct :: "string \<Rightarrow> unit res"

text \<open>The options of \<open>run\<close> that its body reads after the backend is loaded.\<close>

record config =
  backend :: string
  max_workers :: int
  limit :: int
  restart_every :: int
  retry_status :: "string option"
  force :: bool
  dry_run :: bool

definition SUBMIT_BATCH :: nat where
  "SUBMIT_BATCH = 500"

text \<open>
  The constructor of a backend other than the mock: \<open>ImportError\<close> when its packages
  are missing, then (for the API backends) \<open>ValueError\<close> when its key is not set, then
  the rest.
\<close>

definition backend_init :: "'img env \<Rightarrow> string \<Rightarrow> bool \<Rightarrow> unit res" where
  "backend_init env name needs_key =
     (if \<not> installed env name then Inl ImportError
      else if needs_key \<and> api_key env name = [] then Inl ValueError
      else construct env name)"

text \<open>
  \<open>load_backend\<close>: it constructs the backend of a name it knows; any other name is a
  \<open>ValueError\<close>. \<open>MockBackend(model=model)\<close> only stores its arguments.
\<close>

definition load_backend :: "'img env \<Rightarrow> string \<Rightarrow> unit res" where
  "load_backend env name =
     (if name = ''mock'' then Inr ()
      else if name = ''local'' then backend_init env name False
      else if name = ''openai'' then backend_init env name True
      else if name = ''xai'' then backend_init env name True
      else if name = ''anthropic'' then backend_init env name True
      else if name = ''gemini'' then backend_init env name True
      else Inl ValueError)"

text \<open>
  \<open>_batched(iterable, n)\<close>: chunks of \<open>n\<close> items until \<open>list(islice(it, n))\<close> is empty.
\<close>

function batched :: "'a list \<Rightarrow> nat \<Rightarrow> 'a list list" where
  "batched xs n = (if take n xs = [] then [] else take n xs # batched (drop n xs) n)"
  by pat_completeness auto
termination
  by (relation "measure (\<lambda>(xs, n). length xs)") auto

declare batched.simps [simp del]

text \<open>\<open>retry_status.split(",")\<close>: Python's \<open>str.split\<close> with a one-character separator.\<close>

fun split_on :: "char \<Rightarrow> string \<Rightarrow> string list" where
  "split_on sep [] = [[]]"
| "split_on sep (c # cs) =
     (if c = sep then [] # split_on sep cs
      else (case split_on sep cs of
              x # xs \<Rightarrow> (c # x) # xs
            | [] \<Rightarrow> [[c]]))"

text \<open>
  \<open>set(retry_status.split(",")) if retry_status else frozenset()\<close>: \<open>None\<close> and the
  empty string are false.
\<close>

definition retry_statuses_of :: "string option \<Rightarrow> string set" where
  "retry_statuses_of rs =
     (case rs of
        None \<Rightarrow> {}
      | Some s \<Rightarrow> (if s = [] then {} else set (split_on CHR '','' s)))"

text \<open>
  \<open>process_one\<close>: the \<open>try\<close> body loads the image, asks the backend and writes the
  success record; \<open>CorruptImageError\<close> is handled first, every other exception by the
  second handler, whose status depends on whether \<open>"api"\<close> occurs in the \<open>backend\<close>
  option. An exception of a handler's own \<open>write\<close> leaves \<open>process_one\<close>.
\<close>

definition process_one :: "string \<Rightarrow> 'img env \<Rightarrow> item \<Rightarrow> world \<Rightarrow> unit res \<times> world" where
  "process_one backend_name env it w =
     (let rp = fst it; fp = snd it;
          attempt =
            (case load_image env fp of
               Inl e \<Rightarrow> (Inl e, w)
             | Inr img \<Rightarrow>
                 (case be_caption env img of
                    Inl e \<Rightarrow> (Inl e, w)
                  | Inr cap \<Rightarrow> journal_write rp (Some cap) ''success'' w))
      in case attempt of
           (Inr u, w1) \<Rightarrow> (Inr (), w1)
         | (Inl e, w1) \<Rightarrow>
             (if e = CorruptImageError
              then (case journal_write rp None ''error_corrupt'' w1 of
                      (Inl e', w2) \<Rightarrow> (Inl e', w2)
                    | (Inr u, w2) \<Rightarrow> (Inr (), log_add (WarnItem ''error_corrupt'' rp) w2))
              else (let st = (if sublist ''api'' backend_name then ''error_api'' else ''error_model'')
                    in case journal_write rp None st w1 of
                         (Inl e', w2) \<Rightarrow> (Inl e', w2)
                       | (Inr u, w2) \<Rightarrow> (Inr (), log_add (WarnItem st rp) w2))))"

text \<open>
  The sequential loop (\<open>max_workers <= 1\<close>), from the count \<open>processed\<close> and the items
  left; the result is the count when the loop ends.
\<close>

fun seq_loop :: "string \<Rightarrow> 'img env \<Rightarrow> int \<Rightarrow> nat \<Rightarrow> item list \<Rightarrow> world \<Rightarrow> nat res \<times> world" where
  "seq_loop b env r processed [] w = (Inr processed, w)"
| "seq_loop b env r processed (it # its) w =
     (case process_one b env it w of
        (Inl e, w') \<Rightarrow> (Inl e, w')
      | (Inr u, w') \<Rightarrow>
          (if r > 0 \<and> int (processed + 1) \<ge> r then (Inr (processed + 1), w')
           else seq_loop b env r (processed + 1) its w'))"

text \<open>
  The thread-pool path. Every item of the batch is submitted before the first result
  is read, and leaving the \<open>with ThreadPoolExecutor\<close> block waits for all of them
  (\<open>shutdown(wait=True)\<close>), so each submitted item runs \<open>process_one\<close> once; the lock
  of \<open>write\<close> makes the appends atomic, and \<open>run_futures\<close> runs the items one after
  the other in the order given. It returns the futures' results in that order.
\<close>

fun run_futures :: "string \<Rightarrow> 'img env \<Rightarrow> item list \<Rightarrow> world \<Rightarrow> unit res list \<times> world" where
  "run_futures b env [] w = ([], w)"
| "run_futures b env (it # its) w =
     (case process_one b env it w of
        (r, w') \<Rightarrow> (case run_futures b env its w' of (rs, w'') \<Rightarrow> (r # rs, w'')))"

text \<open>
  The loop \<open>for future in as_completed(futures)\<close>: \<open>future.result()\<close> raises what the
  item raised; the result is the count and the flag \<open>done\<close>.
\<close>

fun collect :: "int \<Rightarrow> nat \<Rightarrow> unit res list \<Rightarrow> (nat \<times> bool) res" where
  "collect r processed [] = Inr (processed, False)"
| "collect r processed (x # xs) =
     (case x of
        Inl e \<Rightarrow> Inl e
      | Inr u \<Rightarrow>
          (if r > 0 \<and> int (processed + 1) \<ge> r then Inr (processed + 1, True)
           else collect r (processed + 1) xs))"

fun pool_loop :: "string \<Rightarrow> 'img env \<Rightarrow> int \<Rightarrow> nat \<Rightarrow> item list list \<Rightarrow> world \<Rightarrow> nat res \<times> world" where
  "pool_loop b env r processed [] w = (Inr processed, w)"
| "pool_loop b env r processed (batch # batches) w =
     (case run_futures b env (completion_order env batch) w of
        (rs, w') \<Rightarrow>
          (case collect r processed rs of
             Inl e \<Rightarrow> (Inl e, w')
           | Inr (processed', done) \<Rightarrow>
               (if done then (Inr processed', w')
                else pool_loop b env r processed' batches w')))"

text \<open>How \<open>run\<close> ends, and the exit status of the process that ran it.\<close>

datatype outcome = Exit int | Return | Raise exn

fun exit_code :: "outcome \<Rightarrow> int" where
  "exit_code (Exit n) = n"
| "exit_code Return = 0"
| "exit_code (Raise e) = 1"

text \<open>The block "Load journal" of \<open>run\<close>.\<close>

definition load_journal :: "config \<Rightarrow> world \<Rightarrow> unit res \<times> world" where
  "load_journal cfg w =
     (if force cfg then (Inr (), log_add InfoForce w)
      else (case load (retry_statuses_of (retry_status cfg)) w of
              (Inl e, w') \<Rightarrow> (Inl e, w')
            | (Inr recs, w') \<Rightarrow>
                (Inr (), if records w' \<noteq> [] then log_add (summary w') w' else w')))"

text \<open>The block "Filter to pending work".\<close>

definition pending_of :: "config \<Rightarrow> item list \<Rightarrow> world \<Rightarrow> item list" where
  "pending_of cfg photos w =
     (let pending = filter (\<lambda>(rp, fp). \<not> is_done rp w) photos
      in if limit cfg > 0 then take (nat (limit cfg)) pending else pending)"

text \<open>The block "Process": one of the two loops, by the worker count.\<close>

definition dispatch ::
  "string \<Rightarrow> 'img env \<Rightarrow> int \<Rightarrow> int \<Rightarrow> item list \<Rightarrow> world \<Rightarrow> nat res \<times> world" where
  "dispatch b env workers r pending w =
     (if workers \<le> 1 then seq_loop b env r 0 pending w
      else pool_loop b env r 0 (batched pending SUBMIT_BATCH) w)"

text \<open>\<open>journal.close()\<close> and the block "Exit code".\<close>

definition finish :: "int \<Rightarrow> item list \<Rightarrow> nat \<Rightarrow> world \<Rightarrow> outcome \<times> world" where
  "finish r pending processed w =
     (let w1 = close w;
          remaining = int (length pending) - int processed
      in if r > 0 \<and> remaining > 0
         then (Exit 2, log_add (InfoBatchDone processed (nat remaining)) w1)
         else (Return, log_add (InfoDone processed) w1))"

text \<open>
  \<open>run\<close>, from the check of \<open>photos_dir\<close> on, in a fresh process: the journal object
  is new, the file is what the last process left.
\<close>

definition run :: "config \<Rightarrow> 'img env \<Rightarrow> jfile \<Rightarrow> outcome \<times> world" where
  "run cfg env f =
     (let w0 = CaptionJournal_init f []
      in if \<not> photos_is_dir env then (Exit 1, log_add ErrorNoPhotosDir w0)
         else (case load_backend env (if dry_run cfg then ''mock'' else backend cfg) of
                 Inl e \<Rightarrow> (Raise e, w0)
               | Inr be \<Rightarrow>
                   (let clamp = (backend cfg = ''local'' \<and> max_workers cfg > 1);
                        workers = (if clamp then 1 else max_workers cfg);
                        w1 = (if clamp then log_add InfoLocalSingleThreaded w0 else w0)
                    in case load_journal cfg w1 of
                         (Inl e, w2) \<Rightarrow> (Raise e, w2)
                       | (Inr u, w2) \<Rightarrow>
                           (let w3 = log_add (InfoFound (length (all_photos env)))
                                       (log_add InfoScanning w2);
                                pending = pending_of cfg (all_photos env) w3;
                                w4 = log_add (InfoToProcess (length pending)) w3
                            in if pending = []
                               then (Exit 0, close (log_add InfoNothingToDo w4))
                               else (case dispatch (backend cfg) env workers (restart_every cfg)
                                            pending w4 of
                                       (Inl e, w5) \<Rightarrow> (Raise e, w5)
                                     | (Inr processed, w5) \<Rightarrow>
                                         finish (restart_every cfg) pending processed w5)))))"

section \<open>Notions the properties are stated with\<close>

text \<open>A file that is absent or does not end inside a line.\<close>

definition terminated :: "jfile \<Rightarrow> bool" where
  "terminated f = (case f of None \<Rightarrow> True | Some c \<Rightarrow> tail c = None)"

text \<open>The entry of \<open>_records\<close> that a validated record becomes.\<close>

definition kv :: "CaptionRecord \<Rightarrow> string \<times> rec_dict" where
  "kv r = (rel_path r, (caption r, status r))"

text \<open>The records of the lines that validate, in file order.\<close>

fun valid_records :: "line list \<Rightarrow> CaptionRecord list" where
  "valid_records [] = []"
| "valid_records (l # ls) =
     (case model_validate_json l of Inl e \<Rightarrow> valid_records ls | Inr r \<Rightarrow> r # valid_records ls)"

text \<open>A malformed line: decodable, not blank, and refused by validation.\<close>

definition malformed :: "line \<Rightarrow> bool" where
  "malformed l = (l \<noteq> Blank \<and> l \<noteq> Undecodable \<and> (\<exists>e. model_validate_json l = Inl e))"

text \<open>A sequence of \<open>write(key, result, status)\<close> calls on one journal.\<close>

fun write_all :: "(string \<times> string option \<times> string) list \<Rightarrow> world \<Rightarrow> unit res \<times> world" where
  "write_all [] w = (Inr (), w)"
| "write_all ((rp, c, st) # ws) w =
     (case journal_write rp c st w of
        (Inl e, w') \<Rightarrow> (Inl e, w')
      | (Inr u, w') \<Rightarrow> write_all ws w')"

text \<open>The JSON text of a record, one member after the other.\<close>

definition record_line :: "CaptionRecord \<Rightarrow> line" where
  "record_line r =
     Json (JObject
       [(''rel_path'', JString (rel_path r)),
        (''caption'', (case caption r of None \<Rightarrow> JNull | Some c \<Rightarrow> JString c)),
        (''status'', JString (status r))])"

text \<open>
  The state after one more record has been appended by \<open>write\<close>: the handle is open,
  the file has the text of the record after what it held, the key is done.
\<close>

definition journaled :: "CaptionRecord \<Rightarrow> world \<Rightarrow> world" where
  "journaled r w =
     w\<lparr>file_open := True,
       disk := Some (append_line (record_line r) (opened (disk w))),
       done_set := insert (rel_path r) (done_set w)\<rparr>"

text \<open>The record a call \<open>write(key, result, status)\<close> validates.\<close>

definition written_record :: "string \<times> string option \<times> string \<Rightarrow> CaptionRecord" where
  "written_record x = \<lparr>rel_path = fst x, caption = fst (snd x), status = snd (snd x)\<rparr>"

text \<open>The calls of a sequence whose key and caption are valid Unicode.\<close>

definition unicode_call :: "string \<times> string option \<times> string \<Rightarrow> bool" where
  "unicode_call x = (utf8 (fst x) \<and> (case fst (snd x) of None \<Rightarrow> True | Some c \<Rightarrow> utf8 c))"

text \<open>
  How the \<open>try\<close> body of \<open>process_one\<close> ends for an item: with the caption written as
  a success, or with the exception of \<open>load_image\<close>, of the backend, or of the
  serializer when the key or the caption is not valid Unicode.
\<close>

definition processing :: "'img env \<Rightarrow> item \<Rightarrow> string res" where
  "processing env it =
     (case load_image env (snd it) of
        Inl e \<Rightarrow> Inl e
      | Inr img \<Rightarrow>
          (case be_caption env img of
             Inl e \<Rightarrow> Inl e
           | Inr cap \<Rightarrow>
               (if utf8 (fst it) \<and> utf8 cap then Inr cap else Inl PydanticSerializationError)))"

text \<open>The status the handlers of \<open>process_one\<close> are expected to record for an exception.\<close>

definition failure_status :: "string \<Rightarrow> exn \<Rightarrow> string" where
  "failure_status b e =
     (if e = CorruptImageError then ''error_corrupt''
      else if sublist ''api'' b then ''error_api'' else ''error_model'')"

text \<open>The record expected in the journal for an item.\<close>

definition outcome_record :: "string \<Rightarrow> 'img env \<Rightarrow> item \<Rightarrow> CaptionRecord" where
  "outcome_record b env it =
     (case processing env it of
        Inr cap \<Rightarrow> \<lparr>rel_path = fst it, caption = Some cap, status = ''success''\<rparr>
      | Inl e \<Rightarrow> \<lparr>rel_path = fst it, caption = None, status = failure_status b e\<rparr>)"

text \<open>
  The state expected after an item: its record journaled and, for a failure, the
  warning logged.
\<close>

definition step :: "string \<Rightarrow> 'img env \<Rightarrow> item \<Rightarrow> world \<Rightarrow> world" where
  "step b env it w =
     (case processing env it of
        Inr cap \<Rightarrow> journaled (outcome_record b env it) w
      | Inl e \<Rightarrow> log_add (WarnItem (failure_status b e) (fst it))
                  (journaled (outcome_record b env it) w))"

text \<open>
  How many of \<open>m\<close> items a loop counts before it stops, when \<open>p\<close> were counted
  before and the threshold is \<open>r\<close>: an item is always counted before the threshold is
  looked at.
\<close>

definition taken :: "int \<Rightarrow> nat \<Rightarrow> nat \<Rightarrow> nat" where
  "taken r p m = (if r > 0 then min (max 1 (nat r - p)) m else m)"

text \<open>
  The pending backlog of a run on the file \<open>f\<close>: the photos with no valid line in the
  journal, or whose last valid line has a status of the retry set (all photos under
  \<open>force\<close>), cut to \<open>limit\<close> when that is positive.
\<close>

definition backlog :: "config \<Rightarrow> item list \<Rightarrow> jfile \<Rightarrow> item list" where
  "backlog cfg photos f =
     (let m = (if force cfg then Map.empty
               else map_of (rev (map kv (valid_records (file_lines f)))));
          pend = filter (\<lambda>(rp, fp). case m rp of
                                        None \<Rightarrow> True
                                      | Some (c, st) \<Rightarrow> st \<in> retry_statuses_of (retry_status cfg))
                   photos
      in if limit cfg > 0 then take (nat (limit cfg)) pend else pend)"

text \<open>The runs that take the sequential loop: one worker, or the local backend.\<close>

definition sequential :: "config \<Rightarrow> bool" where
  "sequential cfg = (max_workers cfg \<le> 1 \<or> backend cfg = ''local'')"

text \<open>
  A library of ten photos, a backend that fails on one of them, a photo that does not
  decode, a pool that completes a batch in reverse order, and the options of a run
  with one worker and a checkpoint every four photos: the inputs the properties are
  instantiated at. \<open>ex_bad_photos\<close> has a file whose name is the byte 0xFF before
  \<open>.jpg\<close>, which is not UTF-8, and after it a file of a subdirectory; in
  \<open>ex_bad_env\<close> that first file does not decode as an image either.
\<close>

definition ex_photos :: "item list" where
  "ex_photos =
     map (\<lambda>k. (k, k))
       [''0.jpg'', ''1.jpg'', ''2.jpg'', ''3.jpg'', ''4.jpg'',
        ''5.jpg'', ''6.jpg'', ''7.jpg'', ''8.jpg'', ''9.jpg'']"

definition ex_env :: "string env" where
  "ex_env =
     \<lparr>photos_is_dir = True,
      all_photos = ex_photos,
      load_image = (\<lambda>fp. if fp = ''3.jpg'' then Inl CorruptImageError else Inr fp),
      be_caption = (\<lambda>img. if img = ''5.jpg'' then Inl (BackendError ''timeout'')
                            else Inr ''a mock caption''),
      completion_order = rev,
      installed = (\<lambda>name. True),
      api_key = (\<lambda>name. ''sk-1''),
      construct = (\<lambda>name. Inr ())\<rparr>"

definition ex_cfg :: config where
  "ex_cfg =
     \<lparr>backend = ''openai'', max_workers = 1, limit = 0, restart_every = 4,
      retry_status = None, force = False, dry_run = False\<rparr>"

definition ex_bad_photos :: "item list" where
  "ex_bad_photos =
     [(CHR 0xFF # ''.jpg'', CHR 0xFF # ''.jpg''), (''sub/0.jpg'', ''sub/0.jpg'')]"

definition ex_bad_env :: "string env" where
  "ex_bad_env =
     ex_env\<lparr>all_photos := ex_bad_photos,
            load_image := (\<lambda>fp. if fp = ''sub/0.jpg'' then Inr fp else Inl CorruptImageError)\<rparr>"

section \<open>Replaying the journal\<close>

lemma mvj_exn: "model_validate_json l = Inl e \<Longrightarrow> e = ValidationError"
  by (cases l)
     (auto simp: model_validate_def CaptionRecord_init_def
           split: json.splits option.splits if_splits)

lemma malformed_simps:
  "malformed Blank = False" "malformed Undecodable = False" "malformed NotJson = True"
  "malformed (Json j) = (\<exists>e. model_validate j = Inl e)"
  by (simp_all add: malformed_def)

lemma read_lines_decodable:
  "Undecodable \<notin> set ls \<Longrightarrow>
   read_lines ls recs d =
     (None, fold (\<lambda>r. AList.update (rel_path r) (caption r, status r)) (valid_records ls) recs,
      d + length (filter malformed ls))"
proof (induction ls arbitrary: recs d)
  case Nil
  then show ?case by simp
next
  case (Cons l ls)
  then have IH: "\<And>recs d. read_lines ls recs d =
     (None, fold (\<lambda>r. AList.update (rel_path r) (caption r, status r)) (valid_records ls) recs,
      d + length (filter malformed ls))" by simp
  show ?case
  proof (cases l)
    case Undecodable
    with Cons.prems show ?thesis by simp
  next
    case Blank
    then show ?thesis by (simp add: IH malformed_simps)
  next
    case NotJson
    then show ?thesis by (simp add: IH malformed_simps)
  next
    case (Json j)
    show ?thesis
    proof (cases "model_validate j")
      case (Inl e)
      then have "e = ValidationError" using mvj_exn[of l e] Json by simp
      with Inl Json show ?thesis by (simp add: IH malformed_simps)
    next
      case (Inr r)
      with Json show ?thesis by (simp add: IH malformed_simps)
    qed
  qed
qed

lemma map_of_fold_update:
  "map_of (fold (\<lambda>r. AList.update (rel_path r) (caption r, status r)) rs recs) =
   map_of recs ++ map_of (rev (map kv rs))"
  by (induction rs arbitrary: recs)
     (auto simp: AList.update_conv' kv_def map_add_def fun_eq_iff split: option.splits)

lemma distinct_fold_update:
  "distinct (map fst recs) \<Longrightarrow>
   distinct (map fst (fold (\<lambda>r. AList.update (rel_path r) (caption r, status r)) rs recs))"
  by (induction rs arbitrary: recs) (auto simp: AList.distinct_update)

lemma fill_done_eq:
  "fill_done retry recs d = d \<union> {rp. \<exists>r. (rp, r) \<in> set recs \<and> snd r \<notin> retry}"
  unfolding fill_done_def
proof (induction recs arbitrary: d)
  case Nil
  then show ?case by simp
next
  case (Cons p recs)
  obtain rp c st where p: "p = (rp, c, st)" by (cases p) auto
  show ?case
    unfolding p by (simp add: Cons.IH) blast
qed

lemma read_lines_distinct:
  "read_lines ls recs d = (err, recs', d') \<Longrightarrow> distinct (map fst recs) \<Longrightarrow>
   distinct (map fst recs')"
  by (induction ls recs d rule: read_lines.induct)
     (auto simp: AList.distinct_update split: if_splits sum.splits)

lemma load_Inr:
  assumes "load retry w = (Inr recs, w')"
  shows "records w' = recs \<and> distinct (map fst recs) \<and>
         done_set w' = {rp. \<exists>r. map_of recs rp = Some r \<and> snd r \<notin> retry} \<and>
         disk w' = disk w \<and> file_open w' = file_open w"
proof -
  define rl where
    "rl = (case disk w of
             None \<Rightarrow> (None, [], 0)
           | Some c \<Rightarrow> read_lines (file_lines (Some c)) [] 0)"
  obtain err rs n where rl: "rl = (err, rs, n)" by (cases rl) auto
  have d: "distinct (map fst rs)"
  proof (cases "disk w")
    case None
    with rl show ?thesis by (simp add: rl_def)
  next
    case (Some c)
    with rl have "read_lines (file_lines (Some c)) [] 0 = (err, rs, n)" by (simp add: rl_def)
    from read_lines_distinct[OF this] show ?thesis by simp
  qed
  from assms rl have e: "err = None"
    by (cases err) (simp_all add: load_def rl_def[symmetric] Let_def)
  from assms rl e have r: "recs = rs"
    and w': "w' = (if n \<noteq> 0 then log_add (WarnDiscarded n) (w\<lparr>records := rs, done_set := {}\<rparr>)
                   else w\<lparr>records := rs, done_set := {}\<rparr>)\<lparr>done_set := fill_done retry rs {}\<rparr>"
    by (auto simp add: load_def rl_def[symmetric] Let_def log_add_def split: if_splits)
  have m: "\<And>rp r. (map_of rs rp = Some r) = ((rp, r) \<in> set rs)"
    using d by (simp add: map_of_eq_Some_iff)
  show ?thesis
    unfolding r w' using d by (auto simp: fill_done_eq log_add_def m)
qed

lemma opened_Some [simp]: "opened (Some c) = c"
  by (simp add: opened_def)

lemma utf8_status: "st \<in> set STATUSES \<Longrightarrow> utf8 st"
  by (auto simp: STATUSES_def)

lemma validate_dump:
  "status r \<in> set STATUSES \<Longrightarrow> model_validate_json (record_line r) = Inr r"
  by (simp add: record_line_def model_validate_def obj_get_def CaptionRecord_init_def
           split: option.splits)

lemma dump_ok:
  "status r \<in> set STATUSES \<Longrightarrow> utf8 (rel_path r) \<Longrightarrow>
   (case caption r of None \<Rightarrow> True | Some c \<Rightarrow> utf8 c) \<Longrightarrow>
   model_dump_json r = Inr (record_line r)"
  by (simp add: model_dump_json_def record_line_def utf8_status)

lemma dump_bad:
  "\<not> (utf8 (rel_path r) \<and> (case caption r of None \<Rightarrow> True | Some c \<Rightarrow> utf8 c)) \<Longrightarrow>
   model_dump_json r = Inl PydanticSerializationError"
  by (auto simp: model_dump_json_def)

lemma journal_write_ok:
  assumes "st \<in> set STATUSES" and "utf8 rp" and "case c of None \<Rightarrow> True | Some s \<Rightarrow> utf8 s"
  shows "journal_write rp c st w =
           (Inr (), journaled \<lparr>rel_path = rp, caption = c, status = st\<rparr> w)"
proof -
  have d: "model_dump_json \<lparr>rel_path = rp, caption = c, status = st\<rparr> =
           Inr (record_line \<lparr>rel_path = rp, caption = c, status = st\<rparr>)"
    using assms by (intro dump_ok) simp_all
  show ?thesis
    using assms(1)
    by (cases w) (simp add: journal_write_def CaptionRecord_init_def d journaled_def Let_def)
qed

lemma journal_write_bad:
  assumes "st \<in> set STATUSES"
    and "\<not> (utf8 rp \<and> (case c of None \<Rightarrow> True | Some s \<Rightarrow> utf8 s))"
  shows "journal_write rp c st w = (Inl PydanticSerializationError, w)"
proof -
  have d: "model_dump_json \<lparr>rel_path = rp, caption = c, status = st\<rparr> =
           Inl PydanticSerializationError"
    using assms(2) by (intro dump_bad) simp
  show ?thesis
    using assms(1) by (simp add: journal_write_def CaptionRecord_init_def d)
qed

lemma file_lines_append:
  "terminated f \<Longrightarrow> file_lines (Some (append_line ln (opened f))) = file_lines f @ [ln]"
  by (auto simp: terminated_def file_lines_def append_line_def opened_def split: option.splits)

lemma terminated_append: "terminated (Some (append_line ln c))"
  by (simp add: terminated_def append_line_def split: option.splits)

lemma file_lines_journaled:
  "terminated (disk w) \<Longrightarrow>
   file_lines (disk (journaled r w)) = file_lines (disk w) @ [record_line r]"
  by (simp add: journaled_def file_lines_append)

lemma terminated_journaled: "terminated (disk (journaled r w))"
  by (simp add: journaled_def terminated_append)

lemma write_all_ok:
  "\<forall>x\<in>set ws. snd (snd x) \<in> set STATUSES \<and> unicode_call x \<Longrightarrow> terminated (disk w) \<Longrightarrow>
   \<exists>w1. write_all ws w = (Inr (), w1) \<and> terminated (disk w1) \<and>
        file_lines (disk w1) = file_lines (disk w) @ map (record_line \<circ> written_record) ws"
proof (induction ws arbitrary: w)
  case Nil
  then show ?case by simp
next
  case (Cons x ws)
  obtain rp c st where x: "x = (rp, c, st)" by (cases x) auto
  from Cons.prems x have st: "st \<in> set STATUSES" and u: "utf8 rp"
    and uc: "case c of None \<Rightarrow> True | Some s \<Rightarrow> utf8 s"
    by (simp_all add: unicode_call_def)
  from Cons.prems have rest: "\<forall>x\<in>set ws. snd (snd x) \<in> set STATUSES \<and> unicode_call x" by simp
  let ?w = "journaled \<lparr>rel_path = rp, caption = c, status = st\<rparr> w"
  from Cons.IH[OF rest terminated_journaled, of "\<lparr>rel_path = rp, caption = c, status = st\<rparr>" w]
  obtain w1 where "write_all ws ?w = (Inr (), w1)" "terminated (disk w1)"
    "file_lines (disk w1) = file_lines (disk ?w) @ map (record_line \<circ> written_record) ws"
    by blast
  then show ?case
    using Cons.prems(2)
    by (simp add: x journal_write_ok[OF st u uc] written_record_def file_lines_journaled)
qed

lemma valid_records_append:
  "valid_records (xs @ ys) = valid_records xs @ valid_records ys"
  by (induction xs) (auto split: sum.splits)

lemma valid_records_dump:
  "\<forall>r\<in>set rs. status r \<in> set STATUSES \<Longrightarrow> valid_records (map record_line rs) = rs"
  by (induction rs) (auto simp: validate_dump)

lemma malformed_dump:
  "status r \<in> set STATUSES \<Longrightarrow> \<not> malformed (record_line r)"
  by (simp add: malformed_def validate_dump)

lemma map_of_rev_last:
  "k \<in> fst ` set xs \<Longrightarrow> map_of (rev xs) k = Some (snd (last (filter (\<lambda>x. fst x = k) xs)))"
proof (induction xs rule: rev_induct)
  case Nil
  then show ?case by simp
next
  case (snoc x xs)
  show ?case
  proof (cases "fst x = k")
    case True
    then show ?thesis by (cases x) auto
  next
    case False
    with snoc.prems have "k \<in> fst ` set xs" by auto
    from snoc.IH[OF this] False show ?thesis by (cases x) auto
  qed
qed

lemma load_decodable:
  assumes "Undecodable \<notin> set (file_lines (disk w))"
  shows "\<exists>w'. load retry w =
           (Inr (fold (\<lambda>r. AList.update (rel_path r) (caption r, status r))
                   (valid_records (file_lines (disk w))) []), w') \<and>
         logged w' = logged w @
           (if filter malformed (file_lines (disk w)) = [] then []
            else [WarnDiscarded (length (filter malformed (file_lines (disk w))))])"
proof (cases "disk w")
  case None
  then show ?thesis by (simp add: load_def file_lines_def Let_def)
next
  case (Some c)
  from read_lines_decodable[OF assms, of "[]" 0] Some show ?thesis
    by (simp add: load_def Let_def log_add_def)
qed

lemma kv_written: "kv (written_record x) = x"
  by (cases x) (simp add: kv_def written_record_def)

lemma obj_get_distinct:
  "distinct (map fst fs) \<Longrightarrow> (k, v) \<in> set fs \<Longrightarrow> obj_get fs k = Some v"
proof -
  assume d: "distinct (map fst fs)" and m: "(k, v) \<in> set fs"
  from d have "distinct (map fst (rev fs))" by (simp add: rev_map[symmetric])
  with m show ?thesis by (simp add: obj_get_def)
qed

lemma load_map:
  assumes "Undecodable \<notin> set (file_lines f)"
  shows "\<exists>recs w'. load retry (CaptionJournal_init f lg) = (Inr recs, w') \<and>
           distinct (map fst recs) \<and>
           map_of recs = map_of (rev (map kv (valid_records (file_lines f)))) \<and>
           logged w' = lg @ (if filter malformed (file_lines f) = [] then []
                             else [WarnDiscarded (length (filter malformed (file_lines f)))])"
proof -
  have "Undecodable \<notin> set (file_lines (disk (CaptionJournal_init f lg)))"
    using assms by (simp add: CaptionJournal_init_def)
  from load_decodable[OF this, of retry] show ?thesis
    by (auto simp: CaptionJournal_init_def map_of_fold_update
             intro!: distinct_fold_update)
qed

section \<open>The loops of the dispatcher\<close>


lemma process_one_eq:
  assumes u: "utf8 (fst it)"
  shows "process_one b env it w = (Inr (), step b env it w)"
proof -
  have s: "''success'' \<in> set STATUSES" and c: "''error_corrupt'' \<in> set STATUSES"
    and a: "''error_api'' \<in> set STATUSES" and m: "''error_model'' \<in> set STATUSES"
    by (simp_all add: STATUSES_def)
  have n: "case None of None \<Rightarrow> True | Some s \<Rightarrow> utf8 s" by simp
  note ok = journal_write_ok[OF c u n] journal_write_ok[OF a u n] journal_write_ok[OF m u n]
  show ?thesis
  proof (cases "load_image env (snd it)")
    case (Inl e)
    then show ?thesis
      by (simp add: process_one_def step_def outcome_record_def processing_def
            failure_status_def ok Let_def)
  next
    case (Inr img)
    note img = Inr
    show ?thesis
    proof (cases "be_caption env img")
      case (Inl e)
      with img show ?thesis
        by (simp add: process_one_def step_def outcome_record_def processing_def
              failure_status_def ok Let_def)
    next
      case (Inr cap)
      show ?thesis
      proof (cases "utf8 cap")
        case True
        then have "case Some cap of None \<Rightarrow> True | Some s \<Rightarrow> utf8 s" by simp
        from journal_write_ok[OF s u this] img Inr True u show ?thesis
          by (simp add: process_one_def step_def outcome_record_def processing_def Let_def)
      next
        case False
        then have "\<not> (utf8 (fst it) \<and> (case Some cap of None \<Rightarrow> True | Some s \<Rightarrow> utf8 s))"
          by simp
        from journal_write_bad[OF s this] img Inr False show ?thesis
          by (simp add: process_one_def step_def outcome_record_def processing_def
                failure_status_def ok Let_def)
      qed
    qed
  qed
qed

lemma process_one_bad:
  assumes u: "\<not> utf8 (fst it)"
  shows "process_one b env it w = (Inl PydanticSerializationError, w)"
proof -
  have s: "''success'' \<in> set STATUSES" and c: "''error_corrupt'' \<in> set STATUSES"
    and a: "''error_api'' \<in> set STATUSES" and m: "''error_model'' \<in> set STATUSES"
    by (simp_all add: STATUSES_def)
  have bad: "\<not> (utf8 (fst it) \<and> (case x of None \<Rightarrow> True | Some s \<Rightarrow> utf8 s))" for x
    using u by simp
  note no = journal_write_bad[OF s bad] journal_write_bad[OF c bad]
    journal_write_bad[OF a bad] journal_write_bad[OF m bad]
  show ?thesis
    by (simp add: process_one_def no Let_def split: sum.splits)
qed

lemma file_lines_log_add [simp]: "file_lines (disk (log_add m w)) = file_lines (disk w)"
  by (simp add: log_add_def)

lemma disk_log_add [simp]: "disk (log_add m w) = disk w"
  by (simp add: log_add_def)

lemma file_lines_step:
  "terminated (disk w) \<Longrightarrow>
   file_lines (disk (step b env it w)) =
   file_lines (disk w) @ [record_line (outcome_record b env it)]"
  by (simp add: step_def file_lines_journaled split: sum.splits)

lemma terminated_step: "terminated (disk (step b env it w))"
  by (simp add: step_def terminated_journaled split: sum.splits)

lemma done_set_step: "done_set (step b env it w) = insert (fst it) (done_set w)"
  by (auto simp: step_def journaled_def log_add_def outcome_record_def split: sum.splits)

lemma terminated_fold_step:
  "terminated (disk w) \<Longrightarrow> terminated (disk (fold (step b env) its w))"
  by (induction its arbitrary: w) (simp_all add: terminated_step)

lemma file_lines_fold_step:
  "terminated (disk w) \<Longrightarrow>
   file_lines (disk (fold (step b env) its w)) =
   file_lines (disk w) @ map (record_line \<circ> outcome_record b env) its"
  by (induction its arbitrary: w) (simp_all add: file_lines_step terminated_step)

lemma seq_loop_stop:
  "utf8 (fst it) \<Longrightarrow> r > 0 \<Longrightarrow> int (p + 1) \<ge> r \<Longrightarrow>
   seq_loop b env r p (it # its) w = (Inr (p + 1), step b env it w)"
  by (simp add: process_one_eq)

lemma seq_loop_go:
  "utf8 (fst it) \<Longrightarrow> \<not> (r > 0 \<and> int (p + 1) \<ge> r) \<Longrightarrow>
   seq_loop b env r p (it # its) w = seq_loop b env r (p + 1) its (step b env it w)"
  by (auto simp: process_one_eq)

lemma seq_loop_bad:
  "\<not> utf8 (fst it) \<Longrightarrow>
   seq_loop b env r p (it # its) w = (Inl PydanticSerializationError, w)"
  by (simp add: process_one_bad)

lemma taken_stop: "r > 0 \<Longrightarrow> int (p + 1) \<ge> r \<Longrightarrow> taken r p (Suc m) = 1"
  by (auto simp: taken_def)

lemma taken_go:
  "\<not> (r > 0 \<and> int (p + 1) \<ge> r) \<Longrightarrow> taken r p (Suc m) = Suc (taken r (p + 1) m)"
  by (auto simp: taken_def)

lemma taken_split:
  "\<not> (r > 0 \<and> max 1 (nat r - p) \<le> m) \<Longrightarrow> taken r p (m + k) = m + taken r (p + m) k"
  by (cases "m = 0") (auto simp: taken_def min_def max_def)

lemma taken_enough:
  "r > 0 \<Longrightarrow> max 1 (nat r - p) \<le> m \<Longrightarrow> taken r p (m + k) = taken r p m"
  by (auto simp: taken_def)

lemma seq_loop_eq:
  "\<forall>it\<in>set its. utf8 (fst it) \<Longrightarrow>
   seq_loop b env r p its w =
     (Inr (p + taken r p (length its)), fold (step b env) (take (taken r p (length its)) its) w)"
proof (induction its arbitrary: p w)
  case Nil
  then show ?case by (simp add: taken_def)
next
  case (Cons it its)
  then have u: "utf8 (fst it)" and rest: "\<forall>it\<in>set its. utf8 (fst it)" by simp_all
  show ?case
  proof (cases "r > 0 \<and> int (p + 1) \<ge> r")
    case True
    then have a: "r > 0" and c: "int (p + 1) \<ge> r" by auto
    show ?thesis
      by (simp add: seq_loop_stop[OF u a c] taken_stop[OF a c] del: seq_loop.simps)
  next
    case False
    show ?thesis
      by (simp add: seq_loop_go[OF u False] taken_go[OF False] Cons.IH[OF rest]
            del: seq_loop.simps)
  qed
qed

lemma run_futures_eq:
  "\<forall>it\<in>set its. utf8 (fst it) \<Longrightarrow>
   run_futures b env its w = (replicate (length its) (Inr ()), fold (step b env) its w)"
  by (induction its arbitrary: w) (simp_all add: process_one_eq)

lemma collect_stop:
  "r > 0 \<Longrightarrow> int (p + 1) \<ge> r \<Longrightarrow> collect r p (Inr u # xs) = Inr (p + 1, True)"
  by simp

lemma collect_go:
  "\<not> (r > 0 \<and> int (p + 1) \<ge> r) \<Longrightarrow> collect r p (Inr u # xs) = collect r (p + 1) xs"
  by auto

lemma collect_replicate:
  "collect r p (replicate m (Inr ())) =
     Inr (p + taken r p m, r > 0 \<and> max 1 (nat r - p) \<le> m)"
proof (induction m arbitrary: p)
  case 0
  then show ?case by (simp add: taken_def)
next
  case (Suc m)
  show ?case
  proof (cases "r > 0 \<and> int (p + 1) \<ge> r")
    case True
    then have a: "r > 0" and c: "int (p + 1) \<ge> r" by auto
    then have "max 1 (nat r - p) \<le> Suc m" by auto
    with a show ?thesis
      by (simp add: collect_stop[OF a c] taken_stop[OF a c] del: collect.simps)
  next
    case False
    then have "(r > 0 \<and> max 1 (nat r - p) \<le> Suc m) = (r > 0 \<and> max 1 (nat r - (p + 1)) \<le> m)"
      by auto
    then show ?thesis
      by (simp add: collect_go[OF False] taken_go[OF False] Suc.IH del: collect.simps)
  qed
qed

lemma load_journal_ok:
  assumes "force cfg \<or> Undecodable \<notin> set (file_lines (disk w))" and "done_set w = {}"
  shows "\<exists>w'. load_journal cfg w = (Inr (), w') \<and> disk w' = disk w \<and>
              file_open w' = file_open w \<and>
              (\<forall>rp. is_done rp w' \<longleftrightarrow>
                 (case (if force cfg then Map.empty
                        else map_of (rev (map kv (valid_records (file_lines (disk w)))))) rp of
                    None \<Rightarrow> False
                  | Some (c, st) \<Rightarrow> st \<notin> retry_statuses_of (retry_status cfg)))"
proof (cases "force cfg")
  case True
  with assms(2) show ?thesis by (simp add: load_journal_def log_add_def is_done_def)
next
  case False
  with assms(1) have dec: "Undecodable \<notin> set (file_lines (disk w))" by simp
  let ?retry = "retry_statuses_of (retry_status cfg)"
  from load_decodable[OF dec, of ?retry] obtain w0 where
    L: "load ?retry w = (Inr (fold (\<lambda>r. AList.update (rel_path r) (caption r, status r))
                   (valid_records (file_lines (disk w))) []), w0)" by blast
  let ?recs = "fold (\<lambda>r. AList.update (rel_path r) (caption r, status r))
                   (valid_records (file_lines (disk w))) []"
  from load_Inr[OF L] have r: "records w0 = ?recs"
    and d: "done_set w0 = {rp. \<exists>r. map_of ?recs rp = Some r \<and> snd r \<notin> ?retry}"
    and k: "disk w0 = disk w" and o: "file_open w0 = file_open w" by auto
  have m: "map_of ?recs = map_of (rev (map kv (valid_records (file_lines (disk w)))))"
    by (simp add: map_of_fold_update)
  let ?w' = "if records w0 \<noteq> [] then log_add (summary w0) w0 else w0"
  have "load_journal cfg w = (Inr (), ?w')"
    using False L by (simp add: load_journal_def)
  moreover have "disk ?w' = disk w" "file_open ?w' = file_open w" "done_set ?w' = done_set w0"
    using k o by (simp_all add: log_add_def)
  ultimately show ?thesis
    using False d unfolding m
    by (auto simp: is_done_def split: option.splits)
qed

lemma pending_of_backlog:
  assumes "\<forall>rp. is_done rp w \<longleftrightarrow>
                 (case (if force cfg then Map.empty
                        else map_of (rev (map kv (valid_records (file_lines f))))) rp of
                    None \<Rightarrow> False
                  | Some (c, st) \<Rightarrow> st \<notin> retry_statuses_of (retry_status cfg))"
  shows "pending_of cfg photos w = backlog cfg photos f"
proof -
  have "filter (\<lambda>(rp, fp). \<not> is_done rp w) photos =
        filter (\<lambda>(rp, fp). case (if force cfg then Map.empty
                        else map_of (rev (map kv (valid_records (file_lines f))))) rp of
                                        None \<Rightarrow> True
                                      | Some (c, st) \<Rightarrow> st \<in> retry_statuses_of (retry_status cfg))
                   photos"
    by (rule filter_cong) (auto simp: assms split: option.splits)
  then show ?thesis by (simp add: pending_of_def backlog_def Let_def)
qed

lemma is_done_log_add [simp]: "is_done rp (log_add m w) = is_done rp w"
  by (simp add: is_done_def log_add_def)

lemma disk_close [simp]: "disk (close w) = disk w"
  by (simp add: close_def)

lemma logged_close [simp]: "logged (close w) = logged w"
  by (simp add: close_def)

lemma last_logged_log_add [simp]: "last (logged (log_add m w)) = m"
  by (simp add: log_add_def)

lemma finish_eq:
  "n \<le> length pending \<Longrightarrow>
   finish r pending n w =
     (if r > 0 \<and> n < length pending
      then (Exit 2, log_add (InfoBatchDone n (length pending - n)) (close w))
      else (Return, log_add (InfoDone n) (close w)))"
  by (auto simp: finish_def Let_def nat_diff_distrib')

lemma taken_le: "taken r p m \<le> m"
  by (simp add: taken_def)

lemma concat_batched: "n > 0 \<Longrightarrow> concat (batched xs n) = xs"
proof (induction xs n rule: batched.induct)
  case (1 xs n)
  show ?case
  proof (cases "take n xs = []")
    case True
    with 1(2) have "xs = []" by (cases xs) auto
    with True show ?thesis by (simp add: batched.simps)
  next
    case False
    from 1(1)[OF False 1(2)] False show ?thesis
      by (subst batched.simps) simp
  qed
qed

lemma batched_single: "xs \<noteq> [] \<Longrightarrow> length xs \<le> n \<Longrightarrow> batched xs n = [xs]"
  by (subst batched.simps, subst batched.simps) auto

lemma pool_loop_single:
  assumes "length (completion_order env batch) = length batch"
    and "\<forall>it\<in>set (completion_order env batch). utf8 (fst it)"
  shows "pool_loop b env r p [batch] w =
           (Inr (p + taken r p (length batch)), fold (step b env) (completion_order env batch) w)"
proof -
  have "collect r p (replicate (length batch) (Inr ())) =
          Inr (p + taken r p (length batch), r > 0 \<and> max 1 (nat r - p) \<le> length batch)"
    by (rule collect_replicate)
  then show ?thesis
    by (simp add: run_futures_eq[OF assms(2)] assms(1))
qed

lemma dispatch_eq:
  fixes env :: "'img env"
  assumes "\<forall>it\<in>set pending. utf8 (fst it)"
    and "workers \<le> 1 \<or>
         (pending \<noteq> [] \<and> length pending \<le> SUBMIT_BATCH \<and>
          length (completion_order env pending) = length pending \<and>
          set (completion_order env pending) = set pending)"
  shows "dispatch b env workers r pending w =
           (Inr (taken r 0 (length pending)),
            fold (step b env)
              (if workers \<le> 1 then take (taken r 0 (length pending)) pending
               else completion_order env pending) w)"
proof (cases "workers \<le> 1")
  case True
  then show ?thesis by (simp add: dispatch_def seq_loop_eq[OF assms(1)])
next
  case False
  with assms(2) have ne: "pending \<noteq> []" and le: "length pending \<le> SUBMIT_BATCH"
    and len: "length (completion_order env pending) = length pending"
    and st: "set (completion_order env pending) = set pending" by auto
  from assms(1) st have u: "\<forall>it\<in>set (completion_order env pending). utf8 (fst it)" by simp
  from False show ?thesis
    by (simp add: dispatch_def batched_single[OF ne le] pool_loop_single[OF len u]
          del: pool_loop.simps)
qed

lemma utf8_backlog:
  "\<forall>it\<in>set photos. utf8 (fst it) \<Longrightarrow> \<forall>it\<in>set (backlog cfg photos f). utf8 (fst it)"
proof -
  have "set (backlog cfg photos f) \<subseteq> set photos"
    by (auto simp: backlog_def Let_def dest!: in_set_takeD)
  then show "\<forall>it\<in>set photos. utf8 (fst it) \<Longrightarrow> \<forall>it\<in>set (backlog cfg photos f). utf8 (fst it)"
    by blast
qed

lemma run_unfold:
  fixes env :: "'img env"
  assumes dir: "photos_is_dir env"
    and be: "load_backend env (if dry_run cfg then ''mock'' else backend cfg) = Inr ()"
    and dec: "force cfg \<or> Undecodable \<notin> set (file_lines f)"
  defines "pending \<equiv> backlog cfg (all_photos env) f"
    and "workers \<equiv> (if backend cfg = ''local'' \<and> max_workers cfg > 1 then 1 else max_workers cfg)"
  shows "\<exists>w4. disk w4 = f \<and>
     run cfg env f =
      (if pending = [] then (Exit 0, close (log_add InfoNothingToDo w4))
       else (case dispatch (backend cfg) env workers (restart_every cfg) pending w4 of
               (Inl e, w5) \<Rightarrow> (Raise e, w5)
             | (Inr processed, w5) \<Rightarrow> finish (restart_every cfg) pending processed w5))"
proof -
  let ?clamp = "backend cfg = ''local'' \<and> max_workers cfg > 1"
  let ?w0 = "CaptionJournal_init f []"
  let ?w1 = "if ?clamp then log_add InfoLocalSingleThreaded ?w0 else ?w0"
  have w1: "disk ?w1 = f" "done_set ?w1 = {}"
    by (simp_all add: CaptionJournal_init_def log_add_def)
  from dec w1 have "force cfg \<or> Undecodable \<notin> set (file_lines (disk ?w1))" by simp
  from load_journal_ok[OF this w1(2)] obtain w2 where
    LJ: "load_journal cfg ?w1 = (Inr (), w2)" and d2: "disk w2 = f"
    and done2: "\<forall>rp. is_done rp w2 \<longleftrightarrow>
                 (case (if force cfg then Map.empty
                        else map_of (rev (map kv (valid_records (file_lines f))))) rp of
                    None \<Rightarrow> False
                  | Some (c, st) \<Rightarrow> st \<notin> retry_statuses_of (retry_status cfg))"
    unfolding w1 by blast
  let ?w3 = "log_add (InfoFound (length (all_photos env))) (log_add InfoScanning w2)"
  have pend: "pending_of cfg (all_photos env) ?w3 = pending"
    unfolding pending_def by (rule pending_of_backlog) (simp add: done2)
  let ?w4 = "log_add (InfoToProcess (length pending)) ?w3"
  have d4: "disk ?w4 = f" by (simp add: d2)
  have "run cfg env f =
      (if pending = [] then (Exit 0, close (log_add InfoNothingToDo ?w4))
       else (case dispatch (backend cfg) env workers (restart_every cfg) pending ?w4 of
               (Inl e, w5) \<Rightarrow> (Raise e, w5)
             | (Inr processed, w5) \<Rightarrow> finish (restart_every cfg) pending processed w5))"
    using dir be LJ pend
    by (simp add: run_def Let_def workers_def split: prod.split sum.split)
  with d4 show ?thesis by blast
qed

lemma run_eq:
  fixes env :: "'img env"
  assumes dir: "photos_is_dir env"
    and be: "load_backend env (if dry_run cfg then ''mock'' else backend cfg) = Inr ()"
    and dec: "force cfg \<or> Undecodable \<notin> set (file_lines f)"
    and tm: "terminated f"
    and u8: "\<forall>it\<in>set (all_photos env). utf8 (fst it)"
    and perm: "sequential cfg \<or>
         (backlog cfg (all_photos env) f \<noteq> [] \<and>
          length (backlog cfg (all_photos env) f) \<le> SUBMIT_BATCH \<and>
          length (completion_order env (backlog cfg (all_photos env) f)) =
            length (backlog cfg (all_photos env) f) \<and>
          set (completion_order env (backlog cfg (all_photos env) f)) =
            set (backlog cfg (all_photos env) f))"
  defines "pending \<equiv> backlog cfg (all_photos env) f"
    and "n \<equiv> taken (restart_every cfg) 0 (length (backlog cfg (all_photos env) f))"
    and "L \<equiv> record_line \<circ> outcome_record (backend cfg) env"
  shows "\<exists>w. run cfg env f =
           ((if pending = [] then Exit 0
             else if restart_every cfg > 0 \<and> n < length pending then Exit 2 else Return), w) \<and>
         last (logged w) =
           (if pending = [] then InfoNothingToDo
            else if restart_every cfg > 0 \<and> n < length pending
                 then InfoBatchDone n (length pending - n) else InfoDone n) \<and>
         terminated (disk w) \<and>
         file_lines (disk w) =
           file_lines f @ map L (if sequential cfg then take n pending
                                 else completion_order env pending)"
proof -
  let ?workers = "if backend cfg = ''local'' \<and> max_workers cfg > 1 then 1 else max_workers cfg"
  have seq: "(?workers \<le> 1) = sequential cfg"
    by (auto simp: sequential_def)
  from run_unfold[OF dir be dec] obtain w4 where d4: "disk w4 = f" and
    R: "run cfg env f =
      (if pending = [] then (Exit 0, close (log_add InfoNothingToDo w4))
       else (case dispatch (backend cfg) env ?workers (restart_every cfg) pending w4 of
               (Inl e, w5) \<Rightarrow> (Raise e, w5)
             | (Inr processed, w5) \<Rightarrow> finish (restart_every cfg) pending processed w5))"
    unfolding pending_def by blast
  show ?thesis
  proof (cases "pending = []")
    case True
    with perm have "sequential cfg" unfolding pending_def by simp
    with True R d4 tm show ?thesis by simp
  next
    case False
    have up: "\<forall>it\<in>set pending. utf8 (fst it)"
      unfolding pending_def by (rule utf8_backlog[OF u8])
    from perm seq have pm: "?workers \<le> 1 \<or>
         (pending \<noteq> [] \<and> length pending \<le> SUBMIT_BATCH \<and>
          length (completion_order env pending) = length pending \<and>
          set (completion_order env pending) = set pending)"
      unfolding pending_def by auto
    let ?its = "if sequential cfg then take n pending else completion_order env pending"
    let ?w5 = "fold (step (backend cfg) env) ?its w4"
    have D: "dispatch (backend cfg) env ?workers (restart_every cfg) pending w4 = (Inr n, ?w5)"
      using dispatch_eq[OF up pm, of "backend cfg" "restart_every cfg" w4] seq
      unfolding n_def pending_def by simp
    have nle: "n \<le> length pending" unfolding n_def pending_def by (rule taken_le)
    have F: "run cfg env f =
        (if restart_every cfg > 0 \<and> n < length pending
         then (Exit 2, log_add (InfoBatchDone n (length pending - n)) (close ?w5))
         else (Return, log_add (InfoDone n) (close ?w5)))"
      using R False D finish_eq[OF nle] by simp
    have t4: "terminated (disk w4)" using tm d4 by simp
    have fs: "file_lines (disk ?w5) = file_lines f @ map L ?its"
      using file_lines_fold_step[OF t4, of "backend cfg" env ?its] d4 by (simp add: L_def)
    have t5: "terminated (disk ?w5)" by (rule terminated_fold_step[OF t4])
    from F False fs t5 show ?thesis by auto
  qed
qed

section \<open>Resuming from the journal of an earlier run\<close>

lemma outcome_record_status: "status (outcome_record b env it) \<in> set STATUSES"
  by (auto simp: outcome_record_def failure_status_def STATUSES_def split: sum.splits)

lemma outcome_record_key [simp]: "rel_path (outcome_record b env it) = fst it"
  by (simp add: outcome_record_def split: sum.splits)

lemma valid_records_journal:
  "valid_records (map (record_line \<circ> outcome_record b env) xs) = map (outcome_record b env) xs"
  using valid_records_dump[of "map (outcome_record b env) xs"]
  by (simp add: outcome_record_status)

lemma filter_notin_take:
  assumes "distinct (map fst xs)"
  shows "filter (\<lambda>(rp, fp). rp \<notin> fst ` set (take k xs)) xs = drop k xs"
proof -
  let ?P = "\<lambda>(rp, fp). rp \<notin> fst ` set (take k xs)"
  have dj: "fst ` set (take k xs) \<inter> fst ` set (drop k xs) = {}"
    using distinct_append[of "map fst (take k xs)" "map fst (drop k xs)"] assms
    by (simp add: map_append[symmetric] del: map_append)
  have a: "filter ?P (take k xs) = []"
    by (force simp: filter_empty_conv)
  from dj have "\<And>a b. (a, b) \<in> set (drop k xs) \<Longrightarrow> a \<notin> fst ` set (take k xs)"
    by force
  then have b: "filter ?P (drop k xs) = drop k xs"
    by (auto simp: filter_id_conv)
  have "filter ?P xs = filter ?P (take k xs @ drop k xs)" by simp
  also have "\<dots> = drop k xs" unfolding filter_append a b by simp
  finally show ?thesis .
qed

lemma backlog_journal:
  assumes "\<not> force cfg" and "retry_status cfg = None" and "limit cfg \<le> 0"
    and "file_lines f = map (record_line \<circ> outcome_record b env) xs"
  shows "backlog cfg photos f = filter (\<lambda>(rp, fp). rp \<notin> fst ` set xs) photos"
proof -
  have vr: "valid_records (file_lines f) = map (outcome_record b env) xs"
    unfolding assms(4) by (rule valid_records_journal)
  let ?kvs = "rev (map (kv \<circ> outcome_record b env) xs)"
  have keys: "fst ` set ?kvs = fst ` set xs"
    by (force simp: kv_def)
  have rs: "retry_statuses_of (retry_status cfg) = {}"
    using assms(2) by (simp add: retry_statuses_of_def)
  have p: "(case map_of ?kvs rp of
              None \<Rightarrow> True
            | Some (c, st) \<Rightarrow> st \<in> retry_statuses_of (retry_status cfg))
           = (rp \<notin> fst ` set xs)" for rp
  proof (cases "map_of ?kvs rp")
    case None
    have "rp \<notin> fst ` set ?kvs"
      using None by (rule map_of_eq_None_iff[THEN iffD1])
    then have "rp \<notin> fst ` set xs" unfolding keys .
    then show ?thesis unfolding None by simp
  next
    case (Some a)
    then have "rp \<in> fst ` set ?kvs"
      by (metis domI dom_map_of_conv_image_fst)
    then have "rp \<in> fst ` set xs" unfolding keys .
    then show ?thesis unfolding Some rs by (simp split: prod.splits)
  qed
  show ?thesis
    using assms(1,3) by (simp add: backlog_def vr p Let_def)
qed

lemma backlog_after:
  assumes "\<not> force cfg" and "retry_status cfg = None" and "limit cfg \<le> 0"
    and "distinct (map fst photos)"
    and "file_lines f = map (record_line \<circ> outcome_record b env) (take k photos)"
  shows "backlog cfg photos f = drop k photos"
  by (simp add: backlog_journal[OF assms(1,2,3,5)] filter_notin_take[OF assms(4)])

lemma backlog_drained:
  assumes "\<not> force cfg" and "retry_status cfg = None" and "limit cfg \<le> 0"
    and "file_lines f = map (record_line \<circ> outcome_record b env) xs"
    and "fst ` set photos \<subseteq> fst ` set xs"
  shows "backlog cfg photos f = []"
  using assms(5)
  by (force simp: backlog_journal[OF assms(1,2,3,4)] filter_empty_conv)

lemma dump_decodable: "Undecodable \<notin> set (map (record_line \<circ> g) xs)"
  by (auto simp: record_line_def)

lemma run_sequential_resume:
  fixes env :: "'img env"
  assumes dir: "photos_is_dir env"
    and be: "load_backend env (if dry_run cfg then ''mock'' else backend cfg) = Inr ()"
    and sq: "sequential cfg"
    and nf: "\<not> force cfg" and rt: "retry_status cfg = None" and lm: "limit cfg \<le> 0"
    and ds: "distinct (map fst (all_photos env))"
    and u8: "\<forall>it\<in>set (all_photos env). utf8 (fst it)"
    and tm: "terminated f"
    and fl: "file_lines f = map (record_line \<circ> outcome_record (backend cfg) env)
                              (take k (all_photos env))"
  defines "m \<equiv> length (all_photos env) - k"
  shows "\<exists>w. run cfg env f =
           ((if m = 0 then Exit 0
             else if restart_every cfg > 0 \<and> nat (restart_every cfg) < m then Exit 2
             else Return), w) \<and>
         terminated (disk w) \<and>
         file_lines (disk w) =
           map (record_line \<circ> outcome_record (backend cfg) env)
               (take (k + taken (restart_every cfg) 0 m) (all_photos env))"
proof -
  let ?L = "record_line \<circ> outcome_record (backend cfg) env"
  let ?photos = "all_photos env"
  have bl: "backlog cfg ?photos f = drop k ?photos"
    by (rule backlog_after[OF nf rt lm ds fl])
  have len: "length (drop k ?photos) = m" by (simp add: m_def)
  have dec: "force cfg \<or> Undecodable \<notin> set (file_lines f)"
    unfolding fl by (simp only: dump_decodable) simp
  from sq have perm: "sequential cfg \<or>
         (backlog cfg (all_photos env) f \<noteq> [] \<and>
          length (backlog cfg (all_photos env) f) \<le> SUBMIT_BATCH \<and>
          length (completion_order env (backlog cfg (all_photos env) f)) =
            length (backlog cfg (all_photos env) f) \<and>
          set (completion_order env (backlog cfg (all_photos env) f)) =
            set (backlog cfg (all_photos env) f))"
    by simp
  let ?n = "taken (restart_every cfg) 0 m"
  from run_eq[OF dir be dec tm u8 perm] sq obtain w where
    R: "run cfg env f =
           ((if drop k ?photos = [] then Exit 0
             else if restart_every cfg > 0 \<and> ?n < m then Exit 2 else Return), w)"
    and T: "terminated (disk w)"
    and F: "file_lines (disk w) = file_lines f @ map ?L (take ?n (drop k ?photos))"
    unfolding bl len by auto
  have e: "(drop k ?photos = []) = (m = 0)" using len by (metis length_0_conv)
  have c: "(restart_every cfg > 0 \<and> ?n < m) = (restart_every cfg > 0 \<and> nat (restart_every cfg) < m)"
    by (auto simp: taken_def)
  have "file_lines (disk w) = map ?L (take (k + ?n) ?photos)"
    unfolding F fl by (simp add: take_add)
  with R T show ?thesis unfolding e c by blast
qed

lemma ex_utf8: "\<forall>it\<in>set ex_photos. utf8 (fst it)"
  by (simp add: ex_photos_def)

lemma ex_facts:
  "photos_is_dir ex_env" "all_photos ex_env = ex_photos"
  "load_backend ex_env (if dry_run ex_cfg then ''mock'' else backend ex_cfg) = Inr ()"
  "sequential ex_cfg" "\<not> force ex_cfg" "retry_status ex_cfg = None" "limit ex_cfg \<le> 0"
  "restart_every ex_cfg = 4" "length (all_photos ex_env) = 10"
  "distinct (map fst (all_photos ex_env))" "file_lines None = []"
  "\<forall>it\<in>set (all_photos ex_env). utf8 (fst it)" "terminated None"
  by (simp_all add: ex_env_def ex_cfg_def ex_photos_def load_backend_def backend_init_def
        sequential_def file_lines_def terminated_def)

lemma ex_len: "length ex_photos = 10" "ex_photos \<noteq> []"
  by (simp_all add: ex_photos_def)

lemma file_lines_init [simp]: "file_lines (disk (CaptionJournal_init f lg)) = file_lines f"
  by (simp add: CaptionJournal_init_def)

lemma disk_init [simp]: "disk (CaptionJournal_init f lg) = f"
  by (simp add: CaptionJournal_init_def)

lemma file_lines_None [simp]: "file_lines None = []"
  by (simp add: file_lines_def)

lemma terminated_None [simp]: "terminated None"
  by (simp add: terminated_def)

section \<open>Round trip\<close>

text \<open>
  C1, as the code has it: any sequence of \<open>write\<close> calls with statuses of the closed
  set whose keys and captions are valid Unicode, on a journal whose file is absent or
  ends with a newline and has no undecodable line, then \<open>close()\<close> and a \<open>load()\<close> by a
  new journal object on the same file. The writes all return, the load returns a map
  whose keys are those of the valid lines that were there and the keys written; on a
  file that was empty or absent they are exactly the keys written; and each key
  written maps to the caption and status of the last write for it.
\<close>

theorem round_trip_last_write_wins:
  assumes "\<forall>x\<in>set ws. snd (snd x) \<in> set STATUSES \<and> unicode_call x"
    and "Undecodable \<notin> set (file_lines f)"
    and "terminated f"
  shows "\<exists>w1 recs w2.
      write_all ws (CaptionJournal_init f lg) = (Inr (), w1) \<and>
      load retry (CaptionJournal_init (disk (close w1)) lg') = (Inr recs, w2) \<and>
      distinct (map fst recs) \<and>
      fst ` set recs = rel_path ` set (valid_records (file_lines f)) \<union> fst ` set ws \<and>
      (file_lines f = [] \<longrightarrow> fst ` set recs = fst ` set ws) \<and>
      (\<forall>rp\<in>fst ` set ws.
         map_of recs rp = Some (snd (last (filter (\<lambda>x. fst x = rp) ws))))"
proof -
  let ?pre = "file_lines f"
  let ?rs = "map written_record ws"
  have t0: "terminated (disk (CaptionJournal_init f lg))" using assms(3) by simp
  from write_all_ok[OF assms(1) t0]
  obtain w1 where w1: "write_all ws (CaptionJournal_init f lg) = (Inr (), w1)"
    and d1: "file_lines (disk w1) = ?pre @ map record_line ?rs"
    by auto
  let ?w = "CaptionJournal_init (disk (close w1)) lg'"
  have dw: "file_lines (disk ?w) = ?pre @ map record_line ?rs"
    using d1 by simp
  have st: "\<forall>r\<in>set ?rs. status r \<in> set STATUSES"
    using assms(1) by (auto simp: written_record_def)
  have dec: "Undecodable \<notin> set (file_lines (disk ?w))"
    unfolding dw using assms(2) by (auto simp: record_line_def)
  have vr: "valid_records (file_lines (disk ?w)) = valid_records ?pre @ ?rs"
    unfolding dw using valid_records_dump[OF st] by (simp add: valid_records_append)
  define recs where
    "recs = fold (\<lambda>r. AList.update (rel_path r) (caption r, status r)) (valid_records ?pre @ ?rs) []"
  from load_decodable[OF dec, of retry] vr obtain w2
    where L: "load retry ?w = (Inr recs, w2)" by (auto simp: recs_def)
  have kvs: "map kv (valid_records ?pre @ ?rs) = map kv (valid_records ?pre) @ ws"
    by (simp add: kv_written comp_def)
  have m: "map_of recs = map_of (rev (map kv (valid_records ?pre))) ++ map_of (rev ws)"
    unfolding recs_def map_of_fold_update kvs by simp
  have dist: "distinct (map fst recs)"
    unfolding recs_def by (rule distinct_fold_update) simp
  have "fst ` set recs = dom (map_of recs)" by (simp add: dom_map_of_conv_image_fst)
  also have "\<dots> = fst ` set (map kv (valid_records ?pre)) \<union> fst ` set ws"
    unfolding m by (simp add: dom_map_of_conv_image_fst Un_commute)
  also have "fst ` set (map kv (valid_records ?pre)) = rel_path ` set (valid_records ?pre)"
    by (force simp: kv_def)
  finally have keys: "fst ` set recs = rel_path ` set (valid_records ?pre) \<union> fst ` set ws" .
  have lw: "\<forall>rp\<in>fst ` set ws. map_of recs rp = Some (snd (last (filter (\<lambda>x. fst x = rp) ws)))"
  proof
    fix rp assume rp: "rp \<in> fst ` set ws"
    from map_of_rev_last[OF rp] show "map_of recs rp = Some (snd (last (filter (\<lambda>x. fst x = rp) ws)))"
      by (simp add: m map_add_def)
  qed
  from w1 L dist keys lw show ?thesis by auto
qed

theorem round_trip_last_write_wins_witness:
  "\<exists>w1 recs w2.
      write_all [(''a.jpg'', None, ''error_api''), (''b.jpg'', None, ''error_corrupt''),
                 (''a.jpg'', Some ''fixed'', ''success'')] (CaptionJournal_init None []) = (Inr (), w1) \<and>
      load {} (CaptionJournal_init (disk (close w1)) []) = (Inr recs, w2) \<and>
      fst ` set recs = {''a.jpg'', ''b.jpg''} \<and>
      map_of recs ''a.jpg'' = Some (Some ''fixed'', ''success'') \<and>
      map_of recs ''b.jpg'' = Some (None, ''error_corrupt'')"
proof -
  let ?ws = "[(''a.jpg'', None, ''error_api''), (''b.jpg'', None, ''error_corrupt''),
              (''a.jpg'', Some ''fixed'', ''success'')]"
  have a1: "\<forall>x\<in>set ?ws. snd (snd x) \<in> set STATUSES \<and> unicode_call x"
    by (simp add: STATUSES_def unicode_call_def)
  have a2: "Undecodable \<notin> set (file_lines None)" by simp
  have a3: "terminated None" by simp
  show ?thesis
    using round_trip_last_write_wins[OF a1 a2 a3, of "[]" "{}" "[]"]
    apply (elim exE conjE)
    subgoal for w1 recs w2
      apply (rule exI[of _ w1], rule exI[of _ recs], rule exI[of _ w2])
      apply (simp add: insert_commute)
      done
    done
qed

text \<open>
  A \<open>write\<close> whose key is not valid Unicode raises from the serializer and leaves
  nothing to load. A \<open>write\<close> on a file that ends inside a line returns, but its record
  is glued to that line, and the next \<open>load\<close> does not have its key.
\<close>

theorem round_trip_counterexample:
  "write_all [(CHR 0xFF # ''.jpg'', None, ''success'')] (CaptionJournal_init None []) =
     (Inl PydanticSerializationError, CaptionJournal_init None []) \<and>
   fst (load {} (CaptionJournal_init None [])) = Inr [] \<and>
   (\<exists>w1. write_all [(''a.jpg'', Some ''cat'', ''success'')]
            (CaptionJournal_init (Some \<lparr>ended = [], tail = Some NotJson\<rparr>) []) = (Inr (), w1) \<and>
         disk w1 = Some \<lparr>ended = [NotJson], tail = None\<rparr> \<and>
         fst (load {} (CaptionJournal_init (disk (close w1)) [])) = Inr [])"
proof -
  have s: "''success'' \<in> set STATUSES" by (simp add: STATUSES_def)
  have bad: "\<not> (utf8 (CHR 0xFF # ''.jpg'') \<and> (case None of None \<Rightarrow> True | Some s \<Rightarrow> utf8 s))"
    by simp
  have A: "write_all [(CHR 0xFF # ''.jpg'', None, ''success'')] (CaptionJournal_init None []) =
     (Inl PydanticSerializationError, CaptionJournal_init None [])"
    by (simp add: journal_write_bad[OF s bad])
  have B: "fst (load {} (CaptionJournal_init None [])) = Inr []"
    by (simp add: load_def CaptionJournal_init_def Let_def fill_done_def)
  have ok: "utf8 ''a.jpg''" "case Some ''cat'' of None \<Rightarrow> True | Some s \<Rightarrow> utf8 s" by simp_all
  let ?w0 = "CaptionJournal_init (Some \<lparr>ended = [], tail = Some NotJson\<rparr>) []"
  let ?w1 = "journaled \<lparr>rel_path = ''a.jpg'', caption = Some ''cat'', status = ''success''\<rparr> ?w0"
  have C: "write_all [(''a.jpg'', Some ''cat'', ''success'')] ?w0 = (Inr (), ?w1)"
    by (simp add: journal_write_ok[OF s ok])
  have D: "disk ?w1 = Some \<lparr>ended = [NotJson], tail = None\<rparr>"
    by (simp add: journaled_def append_line_def)
  have D': "disk (close ?w1) = Some \<lparr>ended = [NotJson], tail = None\<rparr>"
    using D by simp
  have E: "fst (load {} (CaptionJournal_init (disk (close ?w1)) [])) = Inr []"
    unfolding D'
    by (simp add: load_def CaptionJournal_init_def Let_def fill_done_def file_lines_def
          log_add_def)
  from A B C D E show ?thesis by blast
qed

section \<open>The done set\<close>

text \<open>
  C2: after \<open>load(retry_statuses)\<close> has returned the replayed map, \<open>is_done(key)\<close> is
  true exactly when the map has a record for the key whose status is not in the retry
  set; so a key whose current status is in the retry set is not done although it has a
  record. The map returned is the journal's \<open>_records\<close>.
\<close>

theorem is_done_iff:
  "load retry w = (Inr recs, w') \<Longrightarrow>
   records w' = recs \<and>
   (is_done rp w' \<longleftrightarrow> (\<exists>c st. map_of recs rp = Some (c, st) \<and> st \<notin> retry))"
  using load_Inr[of retry w recs w'] by (auto simp: is_done_def)

theorem is_done_iff_witness:
  "\<exists>w'. load {''error_api''}
          (CaptionJournal_init
             (Some \<lparr>ended =
                      [record_line \<lparr>rel_path = ''a.jpg'', caption = Some ''cat'', status = ''success''\<rparr>,
                       record_line \<lparr>rel_path = ''b.jpg'', caption = None, status = ''error_api''\<rparr>],
                    tail = None\<rparr>) [])
        = (Inr [(''a.jpg'', (Some ''cat'', ''success'')), (''b.jpg'', (None, ''error_api''))], w') \<and>
        records w' = [(''a.jpg'', (Some ''cat'', ''success'')), (''b.jpg'', (None, ''error_api''))] \<and>
        is_done ''a.jpg'' w' \<and> \<not> is_done ''b.jpg'' w'"
proof -
  let ?w = "CaptionJournal_init
             (Some \<lparr>ended =
                      [record_line \<lparr>rel_path = ''a.jpg'', caption = Some ''cat'', status = ''success''\<rparr>,
                       record_line \<lparr>rel_path = ''b.jpg'', caption = None, status = ''error_api''\<rparr>],
                    tail = None\<rparr>) []"
  let ?recs = "[(''a.jpg'', (Some ''cat'', ''success'')), (''b.jpg'', (None, ''error_api''))]"
  obtain r w' where L0: "load {''error_api''} ?w = (r, w')" by force
  have "r = Inr ?recs"
    using L0
    by (auto simp add: load_def CaptionJournal_init_def record_line_def model_validate_def
          obj_get_def CaptionRecord_init_def STATUSES_def Let_def file_lines_def)
  with L0 have L: "load {''error_api''} ?w = (Inr ?recs, w')" by simp
  from is_done_iff[OF L, of "''a.jpg''"] is_done_iff[OF L, of "''b.jpg''"] L
  show ?thesis by auto
qed

section \<open>Members the model does not declare\<close>

text \<open>
  C8: a line that is a JSON object with the members \<open>rel_path\<close> (a string),
  \<open>caption\<close> (a string or \<open>null\<close>) and \<open>status\<close> (of the closed set), and any other
  members besides (no name twice), validates to the record of the three; it is not counted as
  malformed, and \<open>load\<close> of a file that has the line has the key in the map it returns,
  with this record unless a later valid line has the same key.
\<close>

theorem extra_fields_ignored:
  assumes "distinct (map fst fs)"
    and "(''rel_path'', JString rp) \<in> set fs"
    and "(''caption'', (case c of None \<Rightarrow> JNull | Some s \<Rightarrow> JString s)) \<in> set fs"
    and "(''status'', JString st) \<in> set fs"
    and "st \<in> set STATUSES"
    and "Undecodable \<notin> set pre" and "Undecodable \<notin> set post"
    and "file_lines f = pre @ Json (JObject fs) # post"
  shows "model_validate_json (Json (JObject fs)) = Inr \<lparr>rel_path = rp, caption = c, status = st\<rparr> \<and>
         \<not> malformed (Json (JObject fs)) \<and>
         (\<exists>recs w'. load retry (CaptionJournal_init f lg) = (Inr recs, w') \<and>
                     rp \<in> fst ` set recs \<and>
                     (rp \<notin> rel_path ` set (valid_records post) \<longrightarrow>
                        map_of recs rp = Some (c, st)))"
proof -
  let ?r = "\<lparr>rel_path = rp, caption = c, status = st\<rparr>"
  have v: "model_validate (JObject fs) = Inr ?r"
    using assms(5)
    by (cases c)
       (simp_all add: model_validate_def CaptionRecord_init_def
          obj_get_distinct[OF assms(1) assms(2)] obj_get_distinct[OF assms(1) assms(4)]
          obj_get_distinct[OF assms(1) assms(3)])
  have dec: "Undecodable \<notin> set (file_lines f)"
    using assms(6,7,8) by simp
  from load_map[OF dec, of retry lg] obtain recs w' where
    L: "load retry (CaptionJournal_init f lg) = (Inr recs, w')"
    and m: "map_of recs = map_of (rev (map kv (valid_records (pre @ Json (JObject fs) # post))))"
    unfolding assms(8) by blast
  have vr: "valid_records (pre @ Json (JObject fs) # post) =
            valid_records pre @ ?r # valid_records post"
    by (simp add: valid_records_append v)
  have m': "map_of recs =
      (map_of (rev (map kv (valid_records pre))))(rp \<mapsto> (c, st)) ++ map_of (rev (map kv (valid_records post)))"
    unfolding m vr by (simp add: kv_def)
  have k: "rp \<in> dom (map_of recs)" unfolding m' by simp
  then have k': "rp \<in> fst ` set recs" by (simp add: dom_map_of_conv_image_fst)
  have "map_of recs rp = Some (c, st)" if "rp \<notin> rel_path ` set (valid_records post)"
  proof -
    have "rp \<notin> fst ` set (rev (map kv (valid_records post)))"
      using that by (force simp: kv_def)
    then have "map_of (rev (map kv (valid_records post))) rp = None"
      by (simp add: map_of_eq_None_iff)
    then show ?thesis unfolding m' by (simp add: map_add_def)
  qed
  with v L k' show ?thesis by (auto simp: malformed_def)
qed

theorem extra_fields_ignored_witness:
  "model_validate_json
     (Json (JObject [(''schema'', JNumber 2), (''rel_path'', JString ''a.jpg''),
                     (''caption'', JNull), (''tags'', JArray [JString ''x'']),
                     (''status'', JString ''error_api'')]))
     = Inr \<lparr>rel_path = ''a.jpg'', caption = None, status = ''error_api''\<rparr> \<and>
   (\<exists>recs w'. load {} (CaptionJournal_init
        (Some \<lparr>ended = [NotJson] @
           Json (JObject [(''schema'', JNumber 2), (''rel_path'', JString ''a.jpg''),
                     (''caption'', JNull), (''tags'', JArray [JString ''x'']),
                     (''status'', JString ''error_api'')]) # [Blank], tail = None\<rparr>) []) = (Inr recs, w') \<and>
      map_of recs ''a.jpg'' = Some (None, ''error_api''))"
proof -
  let ?fs = "[(''schema'', JNumber 2), (''rel_path'', JString ''a.jpg''),
              (''caption'', JNull), (''tags'', JArray [JString ''x'']),
              (''status'', JString ''error_api'')]"
  have a1: "distinct (map fst ?fs)" by simp
  have a2: "(''rel_path'', JString ''a.jpg'') \<in> set ?fs" by simp
  have a3: "(''caption'', (case None of None \<Rightarrow> JNull | Some s \<Rightarrow> JString s)) \<in> set ?fs" by simp
  have a4: "(''status'', JString ''error_api'') \<in> set ?fs" by simp
  have a5: "''error_api'' \<in> set STATUSES" by (simp add: STATUSES_def)
  have a6: "Undecodable \<notin> set [NotJson]" by simp
  have a7: "Undecodable \<notin> set [Blank]" by simp
  have a8: "file_lines (Some \<lparr>ended = [NotJson] @ Json (JObject ?fs) # [Blank], tail = None\<rparr>) =
            [NotJson] @ Json (JObject ?fs) # [Blank]"
    by (simp add: file_lines_def)
  show ?thesis
    using extra_fields_ignored[OF a1 a2 a3 a4 a5 a6 a7 a8, of "{}" "[]"]
    apply (elim exE conjE)
    subgoal for recs w'
      apply (rule conjI, assumption)
      apply (rule exI[of _ recs], rule exI[of _ w'])
      apply (simp add: model_validate_def)
      done
    done
qed

section \<open>Validation failure in write\<close>

text \<open>
  C10: \<open>write\<close> with a status outside the closed set raises the validation error
  before anything is touched: the file, the handle, the record map, the done set and
  the log are what they were.
\<close>

theorem write_invalid_status_atomic:
  "st \<notin> set STATUSES \<Longrightarrow> journal_write rp c st w = (Inl ValidationError, w)"
  by (simp add: journal_write_def CaptionRecord_init_def)

theorem write_invalid_status_atomic_witness:
  "''done'' \<notin> set STATUSES \<and>
   journal_write ''a.jpg'' (Some ''cat'') ''done''
     (CaptionJournal_init (Some \<lparr>ended = [Blank], tail = None\<rparr>) []) =
     (Inl ValidationError, CaptionJournal_init (Some \<lparr>ended = [Blank], tail = None\<rparr>) [])"
proof -
  have h: "''done'' \<notin> set STATUSES" by (simp add: STATUSES_def)
  show ?thesis using h write_invalid_status_atomic [OF h] by simp
qed

section \<open>Lines that are not valid UTF-8\<close>

text \<open>
  C4 at a journal whose second line was cut inside a multi-byte character, with or
  without a newline after it: the iterator raises \<open>UnicodeDecodeError\<close> outside the
  \<open>try\<close> of the loop, and \<open>load\<close> raises it. (For files whose lines all decode,
  \<open>load_map\<close> above gives the claim: the map of the valid lines, the last line of a
  key winning, and the count of the malformed lines in the warning.)
\<close>

theorem load_undecodable_raises:
  "fst (load {}
     (CaptionJournal_init
        (Some \<lparr>ended = [record_line \<lparr>rel_path = ''a.jpg'', caption = Some ''cat'', status = ''success''\<rparr>],
               tail = Some Undecodable\<rparr>) [])) = Inl UnicodeDecodeError \<and>
   fst (load {}
     (CaptionJournal_init
        (Some \<lparr>ended = [record_line \<lparr>rel_path = ''a.jpg'', caption = Some ''cat'', status = ''success''\<rparr>,
                        Undecodable],
               tail = None\<rparr>) [])) = Inl UnicodeDecodeError"
  by (simp add: load_def CaptionJournal_init_def record_line_def model_validate_def
        obj_get_def CaptionRecord_init_def STATUSES_def Let_def file_lines_def)

section \<open>Checkpoints\<close>




section \<open>Failures of single items\<close>

text \<open>
  C5 at a library whose first photo has a file name that is not valid UTF-8 and does
  not decode as an image: \<open>load_image\<close> raises \<open>CorruptImageError\<close>, the \<open>write\<close> of
  the handler raises \<open>PydanticSerializationError\<close>, and that exception leaves
  \<open>process_one\<close> with nothing written. (When the image of such a file loads, the
  \<open>write\<close> of the \<open>try\<close> body raises it and the \<open>write\<close> of the handler
  \<open>except Exception\<close> raises it again.) The loop does not catch it: \<open>run\<close> ends with
  the exception (exit status 1), the journal has no record, and the second photo is
  never processed. (For keys that are valid Unicode, \<open>process_one_eq\<close>, \<open>seq_loop_eq\<close>
  and \<open>run_futures_eq\<close> above give the claim: \<open>process_one\<close> returns with the
  record of the item appended, whatever \<open>load_image\<close> and the backend did, and
  neither loop raises.)
\<close>

theorem unserializable_key_aborts_run:
  "load_image ex_bad_env (CHR 0xFF # ''.jpg'') = Inl CorruptImageError \<and>
   process_one ''openai'' ex_bad_env (CHR 0xFF # ''.jpg'', CHR 0xFF # ''.jpg'')
     (CaptionJournal_init None []) =
     (Inl PydanticSerializationError, CaptionJournal_init None []) \<and>
   process_one ''openai'' ex_env (CHR 0xFF # ''.jpg'', CHR 0xFF # ''.jpg'')
     (CaptionJournal_init None []) =
     (Inl PydanticSerializationError, CaptionJournal_init None []) \<and>
   fst (run ex_cfg ex_bad_env None) = Raise PydanticSerializationError \<and>
   file_lines (disk (snd (run ex_cfg ex_bad_env None))) = [] \<and>
   exit_code (fst (run ex_cfg ex_bad_env None)) = 1"
proof -
  have bad: "\<not> utf8 (fst (CHR 0xFF # ''.jpg'', CHR 0xFF # ''.jpg''))" by simp
  have L: "load_image ex_bad_env (CHR 0xFF # ''.jpg'') = Inl CorruptImageError"
    by (simp add: ex_bad_env_def)
  have A: "process_one ''openai'' ex_bad_env (CHR 0xFF # ''.jpg'', CHR 0xFF # ''.jpg'')
     (CaptionJournal_init None []) =
     (Inl PydanticSerializationError, CaptionJournal_init None [])"
    by (rule process_one_bad[OF bad])
  have A': "process_one ''openai'' ex_env (CHR 0xFF # ''.jpg'', CHR 0xFF # ''.jpg'')
     (CaptionJournal_init None []) =
     (Inl PydanticSerializationError, CaptionJournal_init None [])"
    by (rule process_one_bad[OF bad])
  have dir: "photos_is_dir ex_bad_env" by (simp add: ex_bad_env_def ex_env_def)
  have be: "load_backend ex_bad_env (if dry_run ex_cfg then ''mock'' else backend ex_cfg) = Inr ()"
    by (simp add: ex_bad_env_def ex_env_def ex_cfg_def load_backend_def backend_init_def)
  have dec: "force ex_cfg \<or> Undecodable \<notin> set (file_lines None)" by simp
  have ph: "all_photos ex_bad_env = ex_bad_photos" by (simp add: ex_bad_env_def)
  have bl: "backlog ex_cfg (all_photos ex_bad_env) None = ex_bad_photos"
    unfolding ph by (simp add: backlog_def ex_cfg_def retry_statuses_of_def ex_bad_photos_def)
  have wk: "(if backend ex_cfg = ''local'' \<and> max_workers ex_cfg > 1 then 1 else max_workers ex_cfg) = 1"
    by (simp add: ex_cfg_def)
  from run_unfold[OF dir be dec] obtain w4 where d4: "disk w4 = None" and
    R: "run ex_cfg ex_bad_env None =
      (if ex_bad_photos = [] then (Exit 0, close (log_add InfoNothingToDo w4))
       else (case dispatch (backend ex_cfg) ex_bad_env 1 (restart_every ex_cfg) ex_bad_photos w4 of
               (Inl e, w5) \<Rightarrow> (Raise e, w5)
             | (Inr processed, w5) \<Rightarrow> finish (restart_every ex_cfg) ex_bad_photos processed w5))"
    unfolding bl wk by blast
  have D: "dispatch (backend ex_cfg) ex_bad_env 1 (restart_every ex_cfg) ex_bad_photos w4 =
             (Inl PydanticSerializationError, w4)"
    unfolding ex_bad_photos_def dispatch_def
    by (simp add: seq_loop_bad[OF bad] del: seq_loop.simps)
  have B: "run ex_cfg ex_bad_env None = (Raise PydanticSerializationError, w4)"
    using R D by (simp add: ex_bad_photos_def)
  from L A A' B d4 show ?thesis by simp
qed

section \<open>Classification of failures\<close>



lemma known_backends_no_api: "load_backend env name = Inr () \<Longrightarrow> \<not> sublist ''api'' name"
  by (auto simp: load_backend_def sublist_code prefix_code split: if_splits)



section \<open>Exit signalling\<close>

text \<open>
  On the sequential path, with a journal written by earlier runs over the same
  photos, the three ends of \<open>run\<close> tell the three end states apart: \<open>typer.Exit(0)\<close>
  exactly when the backlog is empty before the run, \<open>typer.Exit(2)\<close> exactly when
  backlog remains after it, and a normal return exactly when the run has drained a
  backlog that was not empty.
\<close>

lemma exit_signalling_sequential:
  fixes env :: "'img env"
  assumes dir: "photos_is_dir env"
    and be: "load_backend env (if dry_run cfg then ''mock'' else backend cfg) = Inr ()"
    and sq: "sequential cfg"
    and nf: "\<not> force cfg" and rt: "retry_status cfg = None" and lm: "limit cfg \<le> 0"
    and ds: "distinct (map fst (all_photos env))"
    and u8: "\<forall>it\<in>set (all_photos env). utf8 (fst it)"
    and tm: "terminated f"
    and fl: "file_lines f = map (record_line \<circ> outcome_record (backend cfg) env)
                              (take k (all_photos env))"
  shows "\<exists>out w. run cfg env f = (out, w) \<and>
           (out = Exit 0 \<longleftrightarrow> backlog cfg (all_photos env) f = []) \<and>
           (out = Exit 2 \<longleftrightarrow> backlog cfg (all_photos env) f \<noteq> [] \<and>
                              backlog cfg (all_photos env) (disk w) \<noteq> []) \<and>
           (out = Return \<longleftrightarrow> backlog cfg (all_photos env) f \<noteq> [] \<and>
                              backlog cfg (all_photos env) (disk w) = [])"
proof -
  let ?photos = "all_photos env"
  let ?m = "length ?photos - k"
  let ?n = "taken (restart_every cfg) 0 ?m"
  from run_sequential_resume[OF dir be sq nf rt lm ds u8 tm fl] obtain w where
    R: "run cfg env f =
           ((if ?m = 0 then Exit 0
             else if restart_every cfg > 0 \<and> nat (restart_every cfg) < ?m then Exit 2
             else Return), w)"
    and F: "file_lines (disk w) =
           map (record_line \<circ> outcome_record (backend cfg) env) (take (k + ?n) ?photos)"
    by blast
  have b0: "backlog cfg ?photos f = drop k ?photos"
    by (rule backlog_after[OF nf rt lm ds fl])
  have b1: "backlog cfg ?photos (disk w) = drop (k + ?n) ?photos"
    by (rule backlog_after[OF nf rt lm ds F])
  have e0: "(drop k ?photos = []) = (?m = 0)" by simp
  have e1: "(drop (k + ?n) ?photos = []) = (?m \<le> ?n)" by auto
  show ?thesis
    apply (rule exI, rule exI[of _ w], rule conjI, rule R)
    unfolding b0 b1 e0 e1
    by (auto simp: taken_def)
qed

text \<open>
  C7 at a run with two workers, \<open>restart_every = 4\<close> and ten photos, on an absent
  journal: the pool runs every item of the batch, so the journal has the record of
  each of the ten photos and no backlog remains after the run (the next run has
  nothing to do and ends with \<open>typer.Exit(0)\<close>); yet the run has counted four, logs
  "Batch of 4 done. 6 remaining." and ends with \<open>typer.Exit(2)\<close>, the signal of a
  checkpoint reached with backlog remaining.
\<close>

theorem pool_signals_checkpoint_when_drained:
  "fst (run (ex_cfg\<lparr>max_workers := 2\<rparr>) ex_env None) = Exit 2 \<and>
   last (logged (snd (run (ex_cfg\<lparr>max_workers := 2\<rparr>) ex_env None))) = InfoBatchDone 4 6 \<and>
   file_lines (disk (snd (run (ex_cfg\<lparr>max_workers := 2\<rparr>) ex_env None))) =
     map (record_line \<circ> outcome_record ''openai'' ex_env) (rev ex_photos) \<and>
   backlog (ex_cfg\<lparr>max_workers := 2\<rparr>) ex_photos
     (disk (snd (run (ex_cfg\<lparr>max_workers := 2\<rparr>) ex_env None))) = [] \<and>
   fst (run (ex_cfg\<lparr>max_workers := 2\<rparr>) ex_env
          (disk (snd (run (ex_cfg\<lparr>max_workers := 2\<rparr>) ex_env None)))) = Exit 0"
proof -
  let ?c = "ex_cfg\<lparr>max_workers := 2\<rparr>"
  let ?L = "record_line \<circ> outcome_record ''openai'' ex_env"
  have c: "load_backend ex_env (if dry_run ?c then ''mock'' else backend ?c) = Inr ()"
    "\<not> force ?c" "retry_status ?c = None" "limit ?c \<le> 0" "\<not> sequential ?c"
    "restart_every ?c = 4" "backend ?c = ''openai''"
    by (simp_all add: ex_cfg_def ex_env_def load_backend_def backend_init_def sequential_def)
  have dec: "force ?c \<or> Undecodable \<notin> set (file_lines None)" by simp
  have f0: "file_lines None = map ?L (take 0 ex_photos)" by simp
  have bl: "backlog ?c (all_photos ex_env) None = ex_photos"
    using backlog_after[OF c(2) c(3) c(4), of ex_photos None "''openai''" ex_env 0] f0 ex_facts(10)
    by (simp add: ex_facts)
  have perm: "sequential ?c \<or>
         (backlog ?c (all_photos ex_env) None \<noteq> [] \<and>
          length (backlog ?c (all_photos ex_env) None) \<le> SUBMIT_BATCH \<and>
          length (completion_order ex_env (backlog ?c (all_photos ex_env) None)) =
            length (backlog ?c (all_photos ex_env) None) \<and>
          set (completion_order ex_env (backlog ?c (all_photos ex_env) None)) =
            set (backlog ?c (all_photos ex_env) None))"
    unfolding bl by (simp add: ex_len SUBMIT_BATCH_def ex_env_def)
  have co: "completion_order ex_env ex_photos = rev ex_photos" by (simp add: ex_env_def)
  from run_eq[OF ex_facts(1) c(1) dec ex_facts(13) ex_facts(12) perm] c(5) obtain wp where
    RP: "run ?c ex_env None = (Exit 2, wp)" and
    LP: "last (logged wp) = InfoBatchDone 4 6" and
    FP: "file_lines (disk wp) = map ?L (rev ex_photos)"
    unfolding bl c(7) co by (auto simp: ex_len c(6) taken_def)
  have sub: "fst ` set ex_photos \<subseteq> fst ` set (rev ex_photos)" by simp
  have B: "backlog ?c ex_photos (disk wp) = []"
    by (rule backlog_drained[OF c(2) c(3) c(4) FP sub])
  have dec2: "force ?c \<or> Undecodable \<notin> set (file_lines (disk wp))"
    unfolding FP by (simp only: dump_decodable) simp
  from run_unfold[OF ex_facts(1) c(1) dec2] obtain w4 where
    "run ?c ex_env (disk wp) = (Exit 0, close (log_add InfoNothingToDo w4))"
    unfolding ex_facts(2) B by auto
  with RP LP FP B show ?thesis by simp
qed

end
